theory Spec2Isabelle
  imports Complex_Main "HOL-Library.Word"
begin

unbundle bit_operations_syntax

section \<open>Machine types and failure\<close>

text \<open>
  \<^verbatim>\<open>uint16\<close> and \<^verbatim>\<open>int16\<close> are 16-bit words; an \<^verbatim>\<open>int16\<close> is the same bit pattern read
  with \<^const>\<open>sint\<close>. The C++ \<^verbatim>\<open>int\<close> is modelled by \<^typ>\<open>int\<close>; where the source would
  overflow it or index outside a vector the model returns the error \<open>Undefined\<close>.
\<close>

type_synonym uint16 = "16 word"
type_synonym int16 = "16 word"

text \<open>
  Modelled from the spec: the \<^verbatim>\<open>CHECK\<close> macro of base.h. A failed check is a hard failure
  that aborts the program; the model records the text of the failed predicate.
  \<open>OutOfRange\<close> is the exception thrown by \<^verbatim>\<open>std::vector::at\<close>.
\<close>

datatype error = CheckFailed string | OutOfRange | Undefined

text \<open>
  \<^verbatim>\<open>bool Uint16ToUtf8(uint16 word, std::vector<char>* utf8)\<close> lives in utf8.h and is taken
  as a parameter: it either appends some output symbols and returns true (\<open>Some\<close>) or
  returns false (\<open>None\<close>). The symbol type is left open, so that the encoder
  \<open>\<lambda>w. Some [w]\<close> shows the sequence of values handed to the encoder.
\<close>

type_synonym 'b utf8_encoder = "uint16 \<Rightarrow> 'b list option"

section \<open>ZigZag\<close>

text \<open>
  \<^verbatim>\<open>uint16 ZigZag(int16 word) { return (word >> 15) ^ (word << 1); }\<close>
  Both shifts are computed on the value promoted to \<^verbatim>\<open>int\<close> (an arithmetic right shift), and
  the result is converted back to 16 bits.
\<close>

definition ZigZag :: "int16 \<Rightarrow> uint16" where
  "ZigZag word = word_of_int (drop_bit 15 (sint word) XOR push_bit 1 (sint word))"

text \<open>
  Modelled from the spec: \<open>unzigzag\<close>, the decoder's inverse of \<open>zigzag\<close>, which is not part of
  mesh.h. It is the usual \<^verbatim>\<open>(z >> 1) ^ -(z & 1)\<close> on 16 bits.
\<close>

definition UnZigZag :: "uint16 \<Rightarrow> int16" where
  "UnZigZag z = drop_bit 1 z XOR (- (z AND 1))"

section \<open>Index compressor\<close>

text \<open>
  \<^verbatim>\<open>CompressIndicesToUtf8\<close>: the loop over \<^verbatim>\<open>list[i]\<close>. Each element is read into an
  \<^verbatim>\<open>int\<close>, so the list is modelled by the values read. The mark is a \<^verbatim>\<open>uint16\<close>; it is
  promoted to \<^verbatim>\<open>int\<close> in the comparisons and in the subtraction, whose result is converted
  to the \<^verbatim>\<open>uint16\<close> parameter of the encoder.
\<close>

fun CompressIndicesToUtf8_loop ::
  "'b utf8_encoder \<Rightarrow> uint16 \<Rightarrow> int list \<Rightarrow> 'b list \<Rightarrow> error + 'b list" where
  "CompressIndicesToUtf8_loop enc index_high_water_mark [] utf8 = Inr utf8"
| "CompressIndicesToUtf8_loop enc index_high_water_mark (index # rest) utf8 =
     (if \<not> index \<ge> 0 then Inl (CheckFailed ''index >= 0'')
      else if \<not> index \<le> uint index_high_water_mark
        then Inl (CheckFailed ''index <= index_high_water_mark'')
      else case enc (word_of_int (uint index_high_water_mark - index)) of
        None \<Rightarrow> Inl (CheckFailed ''Uint16ToUtf8(index_high_water_mark - index, utf8)'')
      | Some out \<Rightarrow>
          CompressIndicesToUtf8_loop enc
            (if index = uint index_high_water_mark
             then index_high_water_mark + 1 else index_high_water_mark)
            rest (utf8 @ out))"

definition CompressIndicesToUtf8 ::
  "'b utf8_encoder \<Rightarrow> int list \<Rightarrow> 'b list \<Rightarrow> error + 'b list" where
  "CompressIndicesToUtf8 enc list utf8 = CompressIndicesToUtf8_loop enc 0 list utf8"

text \<open>
  The index compressor as the specification words it: an unbounded mark starting at 0; an
  index above the mark is a failure (\<open>None\<close>), otherwise the delta from the mark is
  emitted and the mark moves up by one when the index equals it.
\<close>

fun hwm_deltas :: "int \<Rightarrow> int list \<Rightarrow> int list option" where
  "hwm_deltas high_water_mark [] = Some []"
| "hwm_deltas high_water_mark (i # rest) =
     (if i \<le> high_water_mark
      then map_option ((#) (high_water_mark - i))
             (hwm_deltas (if i = high_water_mark then high_water_mark + 1
                          else high_water_mark) rest)
      else None)"

text \<open>Feeding a list of values to the encoder, failing when the encoder refuses one.\<close>

fun encode_all :: "'b utf8_encoder \<Rightarrow> uint16 list \<Rightarrow> 'b list option" where
  "encode_all enc [] = Some []"
| "encode_all enc (w # ws) =
     (case enc w of None \<Rightarrow> None
      | Some out \<Rightarrow> map_option ((@) out) (encode_all enc ws))"


text \<open>The encoder that emits the value it is given: its output is the delta sequence itself.\<close>

definition delta_trace :: "uint16 utf8_encoder" where
  "delta_trace w = Some [w]"

subsection \<open>Auxiliary notions for the index compressor\<close>

text \<open>The mark after one index, and after a whole prefix of the list.\<close>

definition next_mark :: "uint16 \<Rightarrow> int \<Rightarrow> uint16" where
  "next_mark h i = (if i = uint h then h + 1 else h)"

fun mark_after :: "uint16 \<Rightarrow> int list \<Rightarrow> uint16" where
  "mark_after h [] = h"
| "mark_after h (i # xs) = mark_after (next_mark h i) xs"

text \<open>The three checks of one loop iteration, and the check that fails first.\<close>

definition index_accepted :: "'b utf8_encoder \<Rightarrow> uint16 \<Rightarrow> int \<Rightarrow> bool" where
  "index_accepted enc h i \<longleftrightarrow>
     0 \<le> i \<and> i \<le> uint h \<and> enc (word_of_int (uint h - i)) \<noteq> None"

definition index_failure :: "'b utf8_encoder \<Rightarrow> uint16 \<Rightarrow> int \<Rightarrow> error" where
  "index_failure enc h i =
     (if \<not> 0 \<le> i then CheckFailed ''index >= 0''
      else if \<not> i \<le> uint h then CheckFailed ''index <= index_high_water_mark''
      else CheckFailed ''Uint16ToUtf8(index_high_water_mark - index, utf8)'')"


definition negative_index :: "int \<Rightarrow> bool" where
  "negative_index i \<longleftrightarrow> i < 0"

section \<open>Floating-point values, bounds and quantization parameters\<close>

text \<open>
  A \<^verbatim>\<open>float\<close> is a finite real, an infinity or a NaN (the two zeros are not told apart).
  Negation and comparison are exact. Subtraction rounds: the rounding of a real result to
  single precision is a parameter \<open>rnd\<close> of the model.
\<close>

datatype float = Finite real | PlusInf | MinusInf | NaN

text \<open>\<^verbatim>\<open>FLT_MAX\<close> of float.h, \<open>(2 - 2\<^sup>-\<^sup>2\<^sup>3) \<times> 2\<^sup>1\<^sup>2\<^sup>7\<close>: the largest finite single-precision value.\<close>

definition FLT_MAX :: float where
  "FLT_MAX = Finite (2 ^ 128 - 2 ^ 104)"

fun fneg :: "float \<Rightarrow> float" where
  "fneg (Finite a) = Finite (- a)"
| "fneg PlusInf = MinusInf"
| "fneg MinusInf = PlusInf"
| "fneg NaN = NaN"

fun fsub :: "(real \<Rightarrow> float) \<Rightarrow> float \<Rightarrow> float \<Rightarrow> float" where
  "fsub rnd (Finite a) (Finite b) = rnd (a - b)"
| "fsub rnd NaN y = NaN"
| "fsub rnd x NaN = NaN"
| "fsub rnd PlusInf PlusInf = NaN"
| "fsub rnd MinusInf MinusInf = NaN"
| "fsub rnd PlusInf y = PlusInf"
| "fsub rnd MinusInf y = MinusInf"
| "fsub rnd (Finite a) PlusInf = MinusInf"
| "fsub rnd (Finite a) MinusInf = PlusInf"

text \<open>\<open>fgt x y\<close> is the comparison \<^verbatim>\<open>x > y\<close>, false as soon as one side is a NaN.\<close>

fun fgt :: "float \<Rightarrow> float \<Rightarrow> bool" where
  "fgt NaN y = False"
| "fgt x NaN = False"
| "fgt (Finite a) (Finite b) = (a > b)"
| "fgt x PlusInf = False"
| "fgt PlusInf y = True"
| "fgt MinusInf y = False"
| "fgt (Finite a) MinusInf = True"

definition fle :: "float \<Rightarrow> float \<Rightarrow> bool" where
  "fle x y \<longleftrightarrow> x \<noteq> NaN \<and> y \<noteq> NaN \<and> \<not> fgt x y"

text \<open>
  \<^verbatim>\<open>struct Bounds { float mins[8]; float maxes[8]; ... }\<close>. An array of eight floats is a
  function on the indices; only the indices below 8 are ever read or written.
\<close>

record Bounds =
  mins :: "nat \<Rightarrow> float"
  maxes :: "nat \<Rightarrow> float"

text \<open>\<^verbatim>\<open>Bounds::Clear\<close>: the loop over \<^verbatim>\<open>i = 0, ..., 7\<close>.\<close>

definition Clear :: "Bounds \<Rightarrow> Bounds" where
  "Clear bounds =
     fold (\<lambda>i b. b\<lparr>mins := (mins b)(i := FLT_MAX), maxes := (maxes b)(i := fneg FLT_MAX)\<rparr>)
       [0..<8] bounds"

definition UniformScaleFromBounds :: "(real \<Rightarrow> float) \<Rightarrow> Bounds \<Rightarrow> float" where
  "UniformScaleFromBounds rnd bounds =
     (let x = fsub rnd (maxes bounds 0) (mins bounds 0);
          y = fsub rnd (maxes bounds 1) (mins bounds 1);
          z = fsub rnd (maxes bounds 2) (mins bounds 2)
      in if fgt x y then (if fgt x z then x else z)
         else (if fgt y z then y else z))"

record BoundsParams =
  offsets :: "nat \<Rightarrow> float"
  scales :: "nat \<Rightarrow> float"
  bits :: "nat \<Rightarrow> int"

text \<open>
  \<^verbatim>\<open>BoundsParams::FromBounds\<close>. The local \<^verbatim>\<open>ret\<close> starts uninitialised: its initial content
  is the argument \<open>ret\<close>. The three loops run over the channels 0-2, 3-4 and 5-7.
\<close>

definition FromBounds :: "(real \<Rightarrow> float) \<Rightarrow> BoundsParams \<Rightarrow> Bounds \<Rightarrow> BoundsParams" where
  "FromBounds rnd ret bounds =
     (let scale = UniformScaleFromBounds rnd bounds;
          ret = fold (\<lambda>i ret. ret\<lparr>offsets := (offsets ret)(i := fneg (mins bounds i)),
                                  scales := (scales ret)(i := scale),
                                  bits := (bits ret)(i := 14)\<rparr>) [0..<3] ret;
          ret = fold (\<lambda>i ret. ret\<lparr>offsets := (offsets ret)(i := fneg (mins bounds i)),
                                  scales := (scales ret)(i :=
                                     fsub rnd (maxes bounds i) (mins bounds i)),
                                  bits := (bits ret)(i := 10)\<rparr>) [3..<5] ret;
          ret = fold (\<lambda>i ret. ret\<lparr>offsets := (offsets ret)(i := Finite 1),
                                  scales := (scales ret)(i := Finite 2),
                                  bits := (bits ret)(i := 10)\<rparr>) [5..<8] ret
      in ret)"

text \<open>Example values: a box from the origin to (1, 2, 3) with texture range (4, 5).\<close>

definition example_bounds :: Bounds where
  "example_bounds = \<lparr>mins = (\<lambda>i. Finite 0), maxes = (\<lambda>i. Finite (real (Suc i)))\<rparr>"

definition example_params :: BoundsParams where
  "example_params = \<lparr>offsets = (\<lambda>i. NaN), scales = (\<lambda>i. NaN), bits = (\<lambda>i. 0)\<rparr>"

section \<open>Attribute compressor and stream assembler\<close>

text \<open>
  \<^verbatim>\<open>CompressQuantizedAttribsToUtf8\<close>, inner loop: \<^verbatim>\<open>for (j = i; j < attribs.size(); j += 8)\<close>
  with the running \<^verbatim>\<open>prev\<close>. The difference \<^verbatim>\<open>word - prev\<close> is computed on the promoted
  \<^verbatim>\<open>int\<close>s and cast to \<^verbatim>\<open>int16\<close>.
\<close>

function CompressQuantizedAttribsToUtf8_channel ::
  "'b utf8_encoder \<Rightarrow> uint16 list \<Rightarrow> uint16 \<Rightarrow> nat \<Rightarrow> 'b list \<Rightarrow> error + 'b list" where
  "CompressQuantizedAttribsToUtf8_channel enc attribs prev j utf8 =
     (if j < length attribs then
        (case enc (ZigZag (word_of_int (uint (attribs ! j) - uint prev))) of
           None \<Rightarrow> Inl (CheckFailed ''Uint16ToUtf8(za, utf8)'')
         | Some out \<Rightarrow>
             CompressQuantizedAttribsToUtf8_channel enc attribs (attribs ! j) (j + 8)
               (utf8 @ out))
      else Inr utf8)"
  by pat_completeness auto
termination
  by (relation "measure (\<lambda>(enc, attribs, prev, j, utf8). length attribs - j)") auto

text \<open>The outer loop \<^verbatim>\<open>for (i = 0; i < 8; ++i)\<close>, each channel starting with \<^verbatim>\<open>prev = 0\<close>.\<close>

function CompressQuantizedAttribsToUtf8_from ::
  "'b utf8_encoder \<Rightarrow> uint16 list \<Rightarrow> nat \<Rightarrow> 'b list \<Rightarrow> error + 'b list" where
  "CompressQuantizedAttribsToUtf8_from enc attribs i utf8 =
     (if i < 8 then
        (case CompressQuantizedAttribsToUtf8_channel enc attribs 0 i utf8 of
           Inl e \<Rightarrow> Inl e
         | Inr utf8' \<Rightarrow> CompressQuantizedAttribsToUtf8_from enc attribs (i + 1) utf8')
      else Inr utf8)"
  by pat_completeness auto
termination
  by (relation "measure (\<lambda>(enc, attribs, i, utf8). 8 - i)") auto

definition CompressQuantizedAttribsToUtf8 ::
  "'b utf8_encoder \<Rightarrow> uint16 list \<Rightarrow> 'b list \<Rightarrow> error + 'b list" where
  "CompressQuantizedAttribsToUtf8 enc attribs utf8 =
     CompressQuantizedAttribsToUtf8_from enc attribs 0 utf8"

text \<open>
  The attribute compressor as the specification words it. The values of channel \<open>c\<close>
  across every vertex, in vertex order; per channel, \<open>previous\<close> starts at 0 and each value
  \<open>v\<close> gives \<open>zigzag (v - previous)\<close>, the subtraction being modulo \<open>2\<^sup>1\<^sup>6\<close> and the delta
  read as a signed number; the channels follow each other.
\<close>

definition channel_values :: "nat \<Rightarrow> 'a list \<Rightarrow> 'a list" where
  "channel_values c attribs = map (\<lambda>v. attribs ! (8 * v + c)) [0..<length attribs div 8]"

definition zigzag :: "int \<Rightarrow> int" where
  "zigzag n = (if n \<ge> 0 then 2 * n else 2 * \<bar>n\<bar> - 1)"

fun delta_zigzag :: "uint16 \<Rightarrow> uint16 list \<Rightarrow> uint16 list" where
  "delta_zigzag previous [] = []"
| "delta_zigzag previous (v # vs) =
     word_of_int (zigzag (sint (v - previous))) # delta_zigzag v vs"

definition transposed_deltas :: "uint16 list \<Rightarrow> uint16 list" where
  "transposed_deltas attribs =
     concat (map (\<lambda>c. delta_zigzag 0 (channel_values c attribs)) [0..<8])"

text \<open>
  \<^verbatim>\<open>CompressSimpleMeshToFile\<close>. The files are a map from names to contents. Every check
  comes before \<^verbatim>\<open>fopen\<close>, and a failed check leaves the files as they were. What
  \<^verbatim>\<open>fopen\<close> and \<^verbatim>\<open>fwrite\<close> do depends on the environment: \<open>can_open fn\<close> tells whether
  \<^verbatim>\<open>fopen(fn, "wb")\<close> returns a stream, and \<open>written fn utf8\<close> is the number of bytes of the
  buffer that reach the file. The source tests neither result: with a null stream the call
  of \<^verbatim>\<open>fwrite\<close> has no defined behaviour, and no file is written; a short write leaves
  the truncated file with the bytes written and is not reported.
\<close>

definition CompressSimpleMeshToFile ::
  "'b utf8_encoder \<Rightarrow> (string \<Rightarrow> bool) \<Rightarrow> (string \<Rightarrow> 'b list \<Rightarrow> nat) \<Rightarrow>
     uint16 list \<Rightarrow> int list \<Rightarrow> string \<Rightarrow> (string \<rightharpoonup> 'b list) \<Rightarrow>
     error option \<times> (string \<rightharpoonup> 'b list)" where
  "CompressSimpleMeshToFile enc can_open written attribs indices fn files =
     (if \<not> (length attribs AND 7) = 0 then (Some (CheckFailed ''(attribs.size() & 7) == 0''), files)
      else let num_verts = length attribs div 8 in
        if \<not> num_verts > 0 then (Some (CheckFailed ''num_verts > 0''), files)
        else if \<not> num_verts < 65536 then (Some (CheckFailed ''num_verts < 65536''), files)
        else case enc (of_nat (num_verts - 1)) of
          None \<Rightarrow>
            (Some (CheckFailed ''Uint16ToUtf8(static_cast<uint16>(num_verts - 1), &utf8)''),
             files)
        | Some utf8 \<Rightarrow>
            (case CompressQuantizedAttribsToUtf8 enc attribs utf8 of
               Inl e \<Rightarrow> (Some e, files)
             | Inr utf8 \<Rightarrow>
                 (case CompressIndicesToUtf8 enc indices utf8 of
                    Inl e \<Rightarrow> (Some e, files)
                  | Inr utf8 \<Rightarrow>
                      if \<not> can_open fn then (Some Undefined, files)
                      else (None, files(fn \<mapsto> take (written fn utf8) utf8)))))"

text \<open>An environment in which every file opens and every write completes, and one in
  which no file opens.\<close>

definition always_open :: "string \<Rightarrow> bool" where
  "always_open fn = True"

definition never_open :: "string \<Rightarrow> bool" where
  "never_open fn = False"

definition writes_all :: "string \<Rightarrow> 'b list \<Rightarrow> nat" where
  "writes_all fn utf8 = length utf8"

text \<open>Example values: two vertices, and the triangle list over them.\<close>

definition example_attribs :: "uint16 list" where
  "example_attribs = [10, 20, 30, 40, 50, 60, 70, 80, 11, 18, 30, 65535, 0, 61, 69, 80]"

definition example_indices :: "int list" where
  "example_indices = [0, 1, 0, 1, 1, 0]"

subsection \<open>Auxiliary notions for the attribute compressor\<close>

text \<open>The values the inner loop reads from position \<open>j\<close> on, in steps of 8.\<close>

function channel_from :: "'a list \<Rightarrow> nat \<Rightarrow> 'a list" where
  "channel_from attribs j =
     (if j < length attribs then attribs ! j # channel_from attribs (j + 8) else [])"
  by pat_completeness auto
termination
  by (relation "measure (\<lambda>(attribs, j). length attribs - j)") auto

definition whole_records :: "'a list \<Rightarrow> bool" where
  "whole_records attribs \<longleftrightarrow> length attribs mod 8 = 0"

section \<open>Index flattener\<close>

text \<open>
  \<^verbatim>\<open>struct IndexType\<close>: three \<^verbatim>\<open>int\<close>s. In the table the first field holds a flat index or
  one of the two sentinels; in the map it holds the position index.
\<close>

datatype IndexType = IndexType (position_or_flat: int) (texcoord: int) (normal: int)

definition kIndexUnknown :: int where
  "kIndexUnknown = - 1"

definition kIndexNotInTable :: int where
  "kIndexNotInTable = - 2"

text \<open>The default constructor \<^verbatim>\<open>IndexType()\<close>.\<close>

definition IndexType_default :: IndexType where
  "IndexType_default = IndexType kIndexUnknown kIndexUnknown kIndexUnknown"

text \<open>\<^verbatim>\<open>IndexType::operator<\<close>, the ordering of the keys of the map.\<close>

definition IndexType_less :: "IndexType \<Rightarrow> IndexType \<Rightarrow> bool" where
  "IndexType_less this that =
     (if position_or_flat this = position_or_flat that then
        (if texcoord this = texcoord that then normal this < normal that
         else texcoord this < texcoord that)
      else position_or_flat this < position_or_flat that)"

text \<open>
  The largest \<^verbatim>\<open>int\<close>. Incrementing it, and reading a vector outside its bounds, have no
  defined behaviour: the model returns \<open>Undefined\<close> there. A \<^verbatim>\<open>size_t\<close> cast to \<^verbatim>\<open>int\<close> keeps
  its low 32 bits.
\<close>

definition INT_MAX :: int where
  "INT_MAX = 2 ^ 31 - 1"

definition static_cast_int :: "nat \<Rightarrow> int" where
  "static_cast_int n = sint (word_of_nat n :: 32 word)"

text \<open>
  The members \<^verbatim>\<open>count_\<close>, \<^verbatim>\<open>table_\<close> and \<^verbatim>\<open>map_\<close> of \<^verbatim>\<open>IndexFlattener\<close> (a name cannot end
  with an underscore here, hence the suffix). The \<^verbatim>\<open>std::map\<close> is a finite map on its keys: two keys
  that \<^verbatim>\<open>operator<\<close> does not order are equal, so that \<^verbatim>\<open>lower_bound\<close> followed by the
  comparison of the key found is the lookup of the key.
\<close>

record IndexFlattener =
  count_m :: int
  table_m :: "IndexType list"
  map_m :: "IndexType \<rightharpoonup> int"

text \<open>The constructor \<^verbatim>\<open>IndexFlattener(num_positions)\<close>.\<close>

definition IndexFlattener_init :: "nat \<Rightarrow> IndexFlattener" where
  "IndexFlattener_init num_positions =
     \<lparr>count_m = 0, table_m = replicate num_positions IndexType_default, map_m = Map.empty\<rparr>"

text \<open>\<^verbatim>\<open>std::vector::resize\<close>, new elements default-constructed.\<close>

definition resize :: "IndexType list \<Rightarrow> nat \<Rightarrow> IndexType list" where
  "resize v n = take n v @ replicate (n - length v) IndexType_default"

text \<open>\<^verbatim>\<open>std::map::insert\<close>: a key that is present keeps its value.\<close>

definition map_insert :: "('k \<rightharpoonup> 'v) \<Rightarrow> 'k \<Rightarrow> 'v \<Rightarrow> ('k \<rightharpoonup> 'v)" where
  "map_insert m k v = (case m k of None \<Rightarrow> m(k \<mapsto> v) | Some old \<Rightarrow> m)"

definition GetFlattenedIndexFromMap ::
  "IndexFlattener \<Rightarrow> int \<Rightarrow> int \<Rightarrow> int \<Rightarrow> error + ((int \<times> bool) \<times> IndexFlattener)" where
  "GetFlattenedIndexFromMap s position_index texcoord_index normal_index =
     (let index = IndexType position_index texcoord_index normal_index in
      case map_m s index of
        None \<Rightarrow>
          if count_m s \<ge> INT_MAX then Inl Undefined
          else let flat_index = count_m s;
                   s = s\<lparr>count_m := count_m s + 1\<rparr>;
                   s = s\<lparr>map_m := map_insert (map_m s) index flat_index\<rparr>
               in Inr ((flat_index, True), s)
      | Some found \<Rightarrow> Inr ((found, False), s))"

definition GetFlattenedIndex ::
  "IndexFlattener \<Rightarrow> int \<Rightarrow> int \<Rightarrow> int \<Rightarrow> error + ((int \<times> bool) \<times> IndexFlattener)" where
  "GetFlattenedIndex s position_index texcoord_index normal_index =
     (let grow = position_index \<ge> static_cast_int (length (table_m s)) in
      if grow \<and> position_index \<ge> INT_MAX then Inl Undefined
      else
        let s = (if grow then s\<lparr>table_m := resize (table_m s) (nat (position_index + 1))\<rparr>
                 else s)
        in
        if position_index < 0 \<or> \<not> nat position_index < length (table_m s) then Inl Undefined
        else
          let index = table_m s ! nat position_index in
          if position_or_flat index = kIndexUnknown then
            (if count_m s \<ge> INT_MAX then Inl Undefined
             else let flat_index = count_m s;
                      s = s\<lparr>count_m := count_m s + 1\<rparr>;
                      s = s\<lparr>table_m := (table_m s)[nat position_index :=
                               IndexType flat_index texcoord_index normal_index]\<rparr>
                  in Inr ((flat_index, True), s))
          else if position_or_flat index = kIndexNotInTable then
            GetFlattenedIndexFromMap s position_index texcoord_index normal_index
          else if texcoord index = texcoord_index \<and> normal index = normal_index then
            Inr ((position_or_flat index, False), s)
          else
            (let old_index = IndexType position_index (texcoord index) (normal index);
                 s = s\<lparr>map_m := map_insert (map_m s) old_index (position_or_flat index)\<rparr>;
                 s = s\<lparr>table_m := (table_m s)[nat position_index :=
                          IndexType kIndexNotInTable (texcoord index) (normal index)]\<rparr>;
                 new_index = IndexType position_index texcoord_index normal_index
             in if count_m s \<ge> INT_MAX then Inl Undefined
                else let flat_index = count_m s;
                         s = s\<lparr>count_m := count_m s + 1\<rparr>;
                         s = s\<lparr>map_m := map_insert (map_m s) new_index flat_index\<rparr>
                     in Inr ((flat_index, True), s)))"

text \<open>A sequence of calls on one flattener, with the list of the pairs returned.\<close>

fun GetFlattenedIndex_seq ::
  "IndexFlattener \<Rightarrow> (int \<times> int \<times> int) list \<Rightarrow>
     error + ((int \<times> bool) list \<times> IndexFlattener)" where
  "GetFlattenedIndex_seq s [] = Inr ([], s)"
| "GetFlattenedIndex_seq s ((p, t, n) # calls) =
     (case GetFlattenedIndex s p t n of
        Inl e \<Rightarrow> Inl e
      | Inr (r, s') \<Rightarrow>
          (case GetFlattenedIndex_seq s' calls of
             Inl e \<Rightarrow> Inl e
           | Inr (rs, s'') \<Rightarrow> Inr (r # rs, s'')))"

subsection \<open>Auxiliary notions for the flattener\<close>

text \<open>The place of the first occurrence of a value in a list.\<close>

fun index_of :: "'a list \<Rightarrow> 'a \<Rightarrow> nat" where
  "index_of [] k = 0"
| "index_of (x # xs) k = (if x = k then 0 else Suc (index_of xs k))"

text \<open>The triples seen so far, in the order of their first occurrence.\<close>

definition seen_with :: "'a list \<Rightarrow> 'a \<Rightarrow> 'a list" where
  "seen_with seen k = (if k \<in> set seen then seen else seen @ [k])"

fun seen_after :: "'a list \<Rightarrow> 'a list \<Rightarrow> 'a list" where
  "seen_after seen [] = seen"
| "seen_after seen (k # ks) = seen_after (seen_with seen k) ks"

text \<open>What a flattener that has seen \<open>seen\<close> must answer, for one call and for a sequence.\<close>

definition flat_answer :: "'a list \<Rightarrow> 'a \<Rightarrow> int \<times> bool" where
  "flat_answer seen k =
     (if k \<in> set seen then (int (index_of seen k), False) else (int (length seen), True))"

fun flat_answers :: "'a list \<Rightarrow> 'a list \<Rightarrow> (int \<times> bool) list" where
  "flat_answers seen [] = []"
| "flat_answers seen (k # ks) = flat_answer seen k # flat_answers (seen_with seen k) ks"

text \<open>The flat index a flattener state holds for a triple, read as the code reads it.\<close>

definition entry_lookup ::
  "(IndexType \<rightharpoonup> int) \<Rightarrow> int \<Rightarrow> IndexType \<Rightarrow> int \<Rightarrow> int \<Rightarrow> int option" where
  "entry_lookup m p e t n =
     (if position_or_flat e = kIndexUnknown then None
      else if position_or_flat e = kIndexNotInTable then m (IndexType p t n)
      else if texcoord e = t \<and> normal e = n then Some (position_or_flat e)
      else None)"

definition flat_lookup :: "IndexFlattener \<Rightarrow> int \<times> int \<times> int \<Rightarrow> int option" where
  "flat_lookup s = (\<lambda>(p, t, n).
     if p < 0 \<or> \<not> nat p < length (table_m s) then None
     else entry_lookup (map_m s) p (table_m s ! nat p) t n)"

definition flattener_inv :: "IndexFlattener \<Rightarrow> (int \<times> int \<times> int) list \<Rightarrow> bool" where
  "flattener_inv s seen \<longleftrightarrow>
     distinct seen \<and> count_m s = int (length seen) \<and> int (length (table_m s)) \<le> INT_MAX \<and>
     (\<forall>k. flat_lookup s k =
        (if k \<in> set seen then Some (int (index_of seen k)) else None)) \<and>
     (\<forall>p t n. map_m s (IndexType p t n) \<noteq> None \<longrightarrow>
        0 \<le> p \<and> nat p < length (table_m s) \<and>
        position_or_flat (table_m s ! nat p) = kIndexNotInTable)"

text \<open>Calls the flattener can serve: a position that indexes the table.\<close>

definition position_ok :: "int \<times> int \<times> int \<Rightarrow> bool" where
  "position_ok k \<longleftrightarrow> 0 \<le> fst k \<and> fst k < INT_MAX"

definition flattener_input :: "nat \<Rightarrow> (int \<times> int \<times> int) list \<Rightarrow> bool" where
  "flattener_input num_positions calls \<longleftrightarrow>
     int num_positions \<le> INT_MAX \<and> int (length calls) \<le> INT_MAX \<and>
     list_all position_ok calls"

section \<open>Draw batch\<close>

text \<open>
  \<^verbatim>\<open>draw_mesh_.attribs\<close> and \<^verbatim>\<open>draw_mesh_.indices\<close> (the struct is declared in base.h;
  the fields carry the prefix \<open>mesh\<close> to keep them apart from the buffers of the same name), and
  the members \<^verbatim>\<open>draw_mesh_\<close> and \<^verbatim>\<open>flattener_\<close> of \<^verbatim>\<open>DrawBatch\<close>. The members
  \<^verbatim>\<open>positions_\<close>, \<^verbatim>\<open>texcoords_\<close> and \<^verbatim>\<open>normals_\<close> point to buffers that the parser keeps
  filling between the calls: each call takes the content of the three buffers at its time
  as arguments.
\<close>

record DrawMesh =
  mesh_attribs :: "float list"
  mesh_indices :: "int list"

record DrawBatch =
  draw_mesh_m :: DrawMesh
  flattener_m :: IndexFlattener

text \<open>The constructor: \<^verbatim>\<open>flattener_(0)\<close> and an empty mesh.\<close>

definition DrawBatch_init :: DrawBatch where
  "DrawBatch_init =
     \<lparr>draw_mesh_m = \<lparr>mesh_attribs = [], mesh_indices = []\<rparr>, flattener_m = IndexFlattener_init 0\<rparr>"

definition INT_MIN :: int where
  "INT_MIN = - (2 ^ 31)"

text \<open>
  \<^verbatim>\<open>std::vector::at\<close> throws on an index outside the vector. The index
  \<^verbatim>\<open>positionDim() * position_index + i\<close> is computed in \<^verbatim>\<open>size_t\<close> (64 bits), to which the
  \<^verbatim>\<open>int\<close> is converted first.
\<close>

definition vector_at :: "'a list \<Rightarrow> nat \<Rightarrow> error + 'a" where
  "vector_at v i = (if i < length v then Inr (v ! i) else Inl OutOfRange)"

definition size_t_of_int :: "int \<Rightarrow> nat" where
  "size_t_of_int x = nat (x mod 2 ^ 64)"

definition at_index :: "nat \<Rightarrow> int \<Rightarrow> nat \<Rightarrow> nat" where
  "at_index width index i = (width * size_t_of_int index + i) mod 2 ^ 64"

text \<open>
  The copy loops \<^verbatim>\<open>for (i = 0; i < dim; ++i) attribs.push_back(src->at(dim * index + i))\<close>,
  over the list of the values of \<^verbatim>\<open>i\<close>.
\<close>

fun push_back_from ::
  "'a list \<Rightarrow> nat \<Rightarrow> int \<Rightarrow> nat list \<Rightarrow> 'a list \<Rightarrow> error + 'a list" where
  "push_back_from src width index [] attribs = Inr attribs"
| "push_back_from src width index (i # rest) attribs =
     (case vector_at src (at_index width index i) of
        Inl e \<Rightarrow> Inl e
      | Inr x \<Rightarrow> push_back_from src width index rest (attribs @ [x]))"

definition positionDim :: nat where "positionDim = 3"
definition texcoordDim :: nat where "texcoordDim = 2"
definition normalDim :: nat where "normalDim = 3"

text \<open>
  One iteration of the loop of \<^verbatim>\<open>AddTriangle\<close>, for \<^verbatim>\<open>i\<close> in 0, 3, 6. The argument
  \<open>triangle\<close> is the array \<^verbatim>\<open>indices\<close> of nine 1-based indices.
\<close>

definition AddTriangle_vertex ::
  "float list \<Rightarrow> float list \<Rightarrow> float list \<Rightarrow> int list \<Rightarrow> nat \<Rightarrow> DrawBatch \<Rightarrow>
     error + DrawBatch" where
  "AddTriangle_vertex positions texcoords normals triangle i b =
     (if triangle ! (i + 0) \<le> INT_MIN \<or> triangle ! (i + 1) \<le> INT_MIN \<or>
         triangle ! (i + 2) \<le> INT_MIN then Inl Undefined
      else
        let position_index = triangle ! (i + 0) - 1;
            texcoord_index = triangle ! (i + 1) - 1;
            normal_index = triangle ! (i + 2) - 1
        in
        case GetFlattenedIndex (flattener_m b) position_index texcoord_index normal_index of
          Inl e \<Rightarrow> Inl e
        | Inr (flattened, flattener) \<Rightarrow>
            let b = b\<lparr>flattener_m := flattener\<rparr>;
                b = b\<lparr>draw_mesh_m := (draw_mesh_m b)
                      \<lparr>mesh_indices := mesh_indices (draw_mesh_m b) @ [fst flattened]\<rparr>\<rparr>
            in
            if snd flattened then
              (case push_back_from positions positionDim position_index [0..<positionDim]
                      (mesh_attribs (draw_mesh_m b)) of
                 Inl e \<Rightarrow> Inl e
               | Inr a \<Rightarrow>
                  (case (if texcoord_index = - 1
                         then Inr (a @ replicate texcoordDim (Finite 0))
                         else push_back_from texcoords texcoordDim texcoord_index
                                [0..<texcoordDim] a) of
                     Inl e \<Rightarrow> Inl e
                   | Inr a \<Rightarrow>
                      (case (if normal_index = - 1
                             then Inr (a @ replicate normalDim (Finite 0))
                             else push_back_from normals normalDim normal_index
                                    [0..<normalDim] a) of
                         Inl e \<Rightarrow> Inl e
                       | Inr a \<Rightarrow>
                           Inr (b\<lparr>draw_mesh_m := (draw_mesh_m b)\<lparr>mesh_attribs := a\<rparr>\<rparr>))))
            else Inr b)"

fun AddTriangle_loop ::
  "float list \<Rightarrow> float list \<Rightarrow> float list \<Rightarrow> int list \<Rightarrow> nat list \<Rightarrow> DrawBatch \<Rightarrow>
     error + DrawBatch" where
  "AddTriangle_loop positions texcoords normals triangle [] b = Inr b"
| "AddTriangle_loop positions texcoords normals triangle (i # rest) b =
     (case AddTriangle_vertex positions texcoords normals triangle i b of
        Inl e \<Rightarrow> Inl e
      | Inr b' \<Rightarrow> AddTriangle_loop positions texcoords normals triangle rest b')"

text \<open>\<^verbatim>\<open>AddTriangle\<close>; reading beyond the end of the array is undefined.\<close>

definition AddTriangle ::
  "float list \<Rightarrow> float list \<Rightarrow> float list \<Rightarrow> int list \<Rightarrow> DrawBatch \<Rightarrow> error + DrawBatch" where
  "AddTriangle positions texcoords normals triangle b =
     (if length triangle < 9 then Inl Undefined
      else AddTriangle_loop positions texcoords normals triangle [0, 3, 6] b)"

text \<open>
  A sequence of calls on one batch; each call comes with the three source buffers as they
  are at that time and with its nine indices.
\<close>

type_synonym add_triangle_call = "float list \<times> float list \<times> float list \<times> int list"

fun AddTriangle_seq :: "DrawBatch \<Rightarrow> add_triangle_call list \<Rightarrow> error + DrawBatch" where
  "AddTriangle_seq b [] = Inr b"
| "AddTriangle_seq b ((positions, texcoords, normals, triangle) # calls) =
     (case AddTriangle positions texcoords normals triangle b of
        Inl e \<Rightarrow> Inl e
      | Inr b' \<Rightarrow> AddTriangle_seq b' calls)"

subsection \<open>Auxiliary notions for the draw batch\<close>

text \<open>The 0-based triple of the vertex at \<open>i\<close>, and the triples of a sequence of calls.\<close>

definition vertex_triple :: "int list \<Rightarrow> nat \<Rightarrow> int \<times> int \<times> int" where
  "vertex_triple triangle i =
     (triangle ! i - 1, triangle ! (i + 1) - 1, triangle ! (i + 2) - 1)"

definition triangle_triples :: "add_triangle_call \<Rightarrow> (int \<times> int \<times> int) list" where
  "triangle_triples call = map (vertex_triple (snd (snd (snd call)))) [0, 3, 6]"

definition all_triples :: "add_triangle_call list \<Rightarrow> (int \<times> int \<times> int) list" where
  "all_triples calls = concat (map triangle_triples calls)"

text \<open>Every flat index of the index list points to a whole record of the attribute buffer.\<close>

definition index_in_buffer :: "DrawMesh \<Rightarrow> int \<Rightarrow> bool" where
  "index_in_buffer m x \<longleftrightarrow> 0 \<le> x \<and> x < int (length (mesh_attribs m) div 8)"

text \<open>The record of vertex \<open>v\<close> in an interleaved buffer; zeros where a channel is absent.\<close>

definition record_at :: "'a list \<Rightarrow> nat \<Rightarrow> 'a list" where
  "record_at buffer v = take 8 (drop (8 * v) buffer)"

definition zero_filled :: "int \<times> int \<times> int \<Rightarrow> float list \<Rightarrow> bool" where
  "zero_filled k a \<longleftrightarrow>
     length a = 8 \<and>
     (fst (snd k) = - 1 \<longrightarrow> a ! 3 = Finite 0 \<and> a ! 4 = Finite 0) \<and>
     (snd (snd k) = - 1 \<longrightarrow> a ! 5 = Finite 0 \<and> a ! 6 = Finite 0 \<and> a ! 7 = Finite 0)"

definition batch_inv :: "DrawBatch \<Rightarrow> (int \<times> int \<times> int) list \<Rightarrow> nat \<Rightarrow> bool" where
  "batch_inv b seen vertices \<longleftrightarrow>
     flattener_inv (flattener_m b) seen \<and>
     length (mesh_attribs (draw_mesh_m b)) = 8 * length seen \<and>
     length (mesh_indices (draw_mesh_m b)) = vertices \<and>
     list_all (index_in_buffer (draw_mesh_m b)) (mesh_indices (draw_mesh_m b)) \<and>
     (\<forall>v<length seen. zero_filled (seen ! v) (record_at (mesh_attribs (draw_mesh_m b)) v))"

text \<open>Example values: three positions, one texture coordinate and one normal.\<close>

definition example_positions :: "float list" where
  "example_positions = map Finite [0, 0, 0, 1, 0, 0, 0, 1, 0]"

definition example_texcoords :: "float list" where
  "example_texcoords = map Finite [1 / 2, 1 / 4]"

definition example_normals :: "float list" where
  "example_normals = map Finite [0, 0, 1]"

definition example_calls :: "add_triangle_call list" where
  "example_calls =
     [(example_positions, example_texcoords, example_normals, [1, 1, 1, 2, 0, 1, 3, 1, 0]),
      (example_positions, example_texcoords, example_normals, [1, 1, 1, 3, 1, 0, 2, 1, 1])]"

definition example_batch :: DrawBatch where
  "example_batch = projr (AddTriangle_seq DrawBatch_init example_calls)"

section \<open>Properties of ZigZag\<close>

lemma ZigZag_bit_xor:
  "bit (ZigZag w) n \<longleftrightarrow>
     n < 16 \<and> (bit (drop_bit 15 (sint w)) n \<noteq> bit (push_bit 1 (sint w)) n)"
  unfolding ZigZag_def
  by (simp only: bit_word_of_int_iff bit_xor_iff len_bit0 len_num1) simp

lemma bit_sign_fill: "bit (drop_bit 15 (sint (w :: 16 word))) n \<longleftrightarrow> bit w 15"
  by (cases "n = 0") (auto simp add: bit_drop_bit_eq bit_sint_iff dest: bit_imp_le_length)

lemma bit_doubled:
  "n < 16 \<Longrightarrow> bit (push_bit 1 (sint (w :: 16 word))) n \<longleftrightarrow> 0 < n \<and> bit w (n - 1)"
  by (simp only: bit_push_bit_iff bit_sint_iff) auto

lemma ZigZag_bit:
  "bit (ZigZag w) n \<longleftrightarrow> n < 16 \<and> (bit w 15 \<noteq> (0 < n \<and> bit w (n - 1)))"
  using bit_doubled [of n w] by (simp only: ZigZag_bit_xor bit_sign_fill) blast

lemma neg_and_1: "- (z AND 1) = (if bit z 0 then - 1 else (0 :: 16 word))"
  by (simp add: bit_0 and_one_eq odd_iff_mod_2_eq_one even_iff_mod_2_eq_zero)

lemma UnZigZag_bit: "bit (UnZigZag z) n \<longleftrightarrow> n < 16 \<and> (bit z (Suc n) \<noteq> bit z 0)"
  unfolding UnZigZag_def
  by (simp only: neg_and_1 bit_xor_iff bit_drop_bit_eq) (auto dest: bit_imp_le_length)

lemma UnZigZag_ZigZag: "UnZigZag (ZigZag d) = d"
proof (rule bit_word_eqI)
  fix n assume "n < LENGTH(16)"
  then have n: "n < 16" by simp
  show "bit (UnZigZag (ZigZag d)) n = bit d n"
  proof (cases "n = 15")
    case True
    then show ?thesis by (simp add: UnZigZag_bit ZigZag_bit)
  next
    case False
    with n have "Suc n < 16" by simp
    with n show ?thesis by (auto simp add: UnZigZag_bit ZigZag_bit)
  qed
qed

lemma ZigZag_UnZigZag: "ZigZag (UnZigZag z) = z"
proof (rule bit_word_eqI)
  fix n assume "n < LENGTH(16)"
  then have n: "n < 16" by simp
  have top: "\<not> bit z 16" by (auto dest: bit_imp_le_length)
  show "bit (ZigZag (UnZigZag z)) n = bit z n"
  proof (cases n)
    case 0
    then show ?thesis using top by (simp add: UnZigZag_bit ZigZag_bit)
  next
    case (Suc m)
    with n show ?thesis using top by (auto simp add: UnZigZag_bit ZigZag_bit)
  qed
qed

text \<open>
  Claim C7. ZigZag maps 0, -1, 1, -2 to 0, 1, 2, 3; undoing it gives back every 16-bit
  signed value, and ZigZag is a bijection from the 16-bit signed to the 16-bit unsigned
  integers.
\<close>

theorem ZigZag_correct:
  "ZigZag 0 = 0 \<and> ZigZag (- 1) = 1 \<and> ZigZag 1 = 2 \<and> ZigZag (- 2) = 3 \<and>
   (\<forall>d. UnZigZag (ZigZag d) = d) \<and> bij ZigZag"
proof -
  have "bij ZigZag"
    by (rule bijI') (metis UnZigZag_ZigZag, metis ZigZag_UnZigZag)
  then show ?thesis by (simp add: UnZigZag_ZigZag) (simp add: ZigZag_def)
qed

section \<open>Properties of the index compressor\<close>

lemma loop_step:
  "index_accepted enc h i \<Longrightarrow>
   CompressIndicesToUtf8_loop enc h (i # rest) utf8 =
     CompressIndicesToUtf8_loop enc (next_mark h i) rest
       (utf8 @ the (enc (word_of_int (uint h - i))))"
  by (auto simp: index_accepted_def next_mark_def)

lemma loop_stop:
  "\<not> index_accepted enc h i \<Longrightarrow>
   CompressIndicesToUtf8_loop enc h (i # rest) utf8 = Inl (index_failure enc h i)"
  by (auto simp: index_accepted_def index_failure_def split: option.splits)

lemma index_failure_CheckFailed: "\<exists>msg. index_failure enc h i = CheckFailed msg"
  by (simp add: index_failure_def)

text \<open>The output buffer is only ever appended to.\<close>

lemma loop_buffer:
  "CompressIndicesToUtf8_loop enc h xs utf8 =
     (case CompressIndicesToUtf8_loop enc h xs [] of
        Inl e \<Rightarrow> Inl e | Inr out \<Rightarrow> Inr (utf8 @ out))"
proof (induction xs arbitrary: h utf8)
  case Nil
  show ?case by simp
next
  case (Cons i xs)
  show ?case
  proof (cases "index_accepted enc h i")
    case False
    then show ?thesis by (simp add: loop_stop del: CompressIndicesToUtf8_loop.simps)
  next
    case True
    let ?out = "the (enc (word_of_int (uint h - i)))"
    let ?r = "CompressIndicesToUtf8_loop enc (next_mark h i) xs []"
    have "CompressIndicesToUtf8_loop enc h (i # xs) utf8 =
        (case ?r of Inl e \<Rightarrow> Inl e | Inr out \<Rightarrow> Inr ((utf8 @ ?out) @ out))"
      by (simp only: loop_step [OF True] Cons.IH [of _ "utf8 @ ?out"])
    moreover have "CompressIndicesToUtf8_loop enc h (i # xs) [] =
        (case ?r of Inl e \<Rightarrow> Inl e | Inr out \<Rightarrow> Inr (([] @ ?out) @ out))"
      by (simp only: loop_step [OF True] Cons.IH [of _ "[] @ ?out"])
    ultimately show ?thesis by (cases ?r) simp_all
  qed
qed

text \<open>Running the loop over a concatenation: the prefix first, the rest from its mark.\<close>

lemma loop_append:
  "CompressIndicesToUtf8_loop enc h (xs @ ys) utf8 =
     (case CompressIndicesToUtf8_loop enc h xs utf8 of
        Inl e \<Rightarrow> Inl e
      | Inr utf8' \<Rightarrow> CompressIndicesToUtf8_loop enc (mark_after h xs) ys utf8')"
proof (induction xs arbitrary: h utf8)
  case Nil
  show ?case by simp
next
  case (Cons i xs)
  show ?case
  proof (cases "index_accepted enc h i")
    case False
    then show ?thesis by (simp add: loop_stop del: CompressIndicesToUtf8_loop.simps)
  next
    case True
    show ?thesis
      using Cons.IH by (simp only: append_Cons loop_step [OF True] mark_after.simps)
  qed
qed

lemma loop_error:
  "CompressIndicesToUtf8_loop enc h xs utf8 = Inl e \<Longrightarrow> \<exists>msg. e = CheckFailed msg"
proof (induction xs arbitrary: h utf8)
  case Nil
  then show ?case by simp
next
  case (Cons i xs)
  show ?case
  proof (cases "index_accepted enc h i")
    case False
    with Cons.prems show ?thesis
      using index_failure_CheckFailed [of enc h i]
      by (simp add: loop_stop del: CompressIndicesToUtf8_loop.simps)
  next
    case True
    with Cons.prems Cons.IH show ?thesis by (simp only: loop_step)
  qed
qed

text \<open>A list that holds an index the loop refuses at its turn is refused as a whole.\<close>

lemma loop_refused:
  assumes "\<not> index_accepted enc (mark_after h pre) i"
  shows "\<exists>msg. CompressIndicesToUtf8_loop enc h (pre @ i # rest) utf8 = Inl (CheckFailed msg)"
proof (cases "CompressIndicesToUtf8_loop enc h pre utf8")
  case (Inl e)
  then have "CompressIndicesToUtf8_loop enc h (pre @ i # rest) utf8 = Inl e"
    by (simp only: loop_append) simp
  moreover obtain msg where "e = CheckFailed msg"
    using loop_error [OF Inl] by blast
  ultimately show ?thesis by simp
next
  case (Inr u)
  have "CompressIndicesToUtf8_loop enc h (pre @ i # rest) utf8 =
      Inl (index_failure enc (mark_after h pre) i)"
    using Inr by (simp only: loop_append loop_stop [OF assms]) simp
  with index_failure_CheckFailed [of enc "mark_after h pre" i] show ?thesis by metis
qed

lemma uint_next_mark: "uint (next_mark h i) \<le> uint h + 1"
proof -
  have "uint (h + 1) \<le> uint h + 1"
    by (simp add: uint_word_ariths zmod_le_nonneg_dividend)
  then show ?thesis by (simp add: next_mark_def)
qed

text \<open>Every value below the mark has been read (or was below the starting mark).\<close>

lemma mark_after_seen:
  "0 \<le> k \<Longrightarrow> k < uint (mark_after h xs) \<Longrightarrow> k < uint h \<or> k \<in> set xs"
proof (induction xs arbitrary: h)
  case Nil
  then show ?case by simp
next
  case (Cons i xs)
  from Cons.prems have "k < uint (mark_after (next_mark h i) xs)" by simp
  with Cons.IH [of "next_mark h i"] Cons.prems(1)
  have "k < uint (next_mark h i) \<or> k \<in> set xs" by blast
  then show ?case
  proof
    assume "k \<in> set xs" then show ?thesis by simp
  next
    assume k: "k < uint (next_mark h i)"
    show ?thesis
    proof (cases "i = uint h")
      case True
      with k uint_next_mark [of h i] have "k < uint h \<or> k = i" by linarith
      then show ?thesis by auto
    next
      case False
      with k show ?thesis by (simp add: next_mark_def)
    qed
  qed
qed


text \<open>
  The 16-bit mark never exceeds the unbounded mark of the specification, so a list that
  breaks the high-water-mark invariant is refused, whatever its indices are.
\<close>

lemma hwm_deltas_None:
  assumes "uint h \<le> H" and "hwm_deltas H xs = None"
  shows "\<exists>msg. CompressIndicesToUtf8_loop enc h xs utf8 = Inl (CheckFailed msg)"
  using assms
proof (induction xs arbitrary: h H utf8)
  case Nil
  then show ?case by simp
next
  case (Cons i xs)
  show ?case
  proof (cases "index_accepted enc h i")
    case False
    then show ?thesis
      using index_failure_CheckFailed [of enc h i]
      by (simp add: loop_stop del: CompressIndicesToUtf8_loop.simps)
  next
    case True
    then have i: "i \<le> uint h" by (simp add: index_accepted_def)
    let ?H' = "if i = H then H + 1 else H"
    from i Cons.prems have rest: "hwm_deltas ?H' xs = None"
      by (simp split: if_splits)
    have "uint (next_mark h i) \<le> ?H'"
    proof (cases "i = uint h")
      case False
      with Cons.prems(1) show ?thesis by (simp add: next_mark_def)
    next
      case True
      with uint_next_mark [of h i] Cons.prems(1) show ?thesis by auto
    qed
    from Cons.IH [OF this rest] show ?thesis
      by (simp only: loop_step [OF True])
  qed
qed


lemma negative_refused:
  assumes "list_ex negative_index list"
  shows "\<exists>msg. CompressIndicesToUtf8_loop enc h list utf8 = Inl (CheckFailed msg)"
proof -
  from assms obtain i where "i \<in> set list" "i < 0"
    by (auto simp: list_ex_iff negative_index_def)
  then obtain pre rest where "list = pre @ i # rest" by (auto dest: split_list)
  moreover from \<open>i < 0\<close> have "\<not> index_accepted enc (mark_after h pre) i"
    by (simp add: index_accepted_def)
  ultimately show ?thesis using loop_refused by metis
qed



text \<open>
  Claim C3, as amended. On the list \<open>[0, 0, 1, 2, 2, 1]\<close> the values handed to the
  encoder are \<open>[0, 1, 0, 0, 1, 2]\<close>, so the output is the buffer followed by their
  encodings; and a list in which the value 2 comes before a 0 or before a 1 has been read
  is refused.
\<close>

theorem CompressIndicesToUtf8_concrete:
  "CompressIndicesToUtf8 delta_trace [0, 0, 1, 2, 2, 1] [] = Inr [0, 1, 0, 0, 1, 2] \<and>
   (encode_all enc [0, 1, 0, 0, 1, 2] = Some out \<longrightarrow>
      CompressIndicesToUtf8 enc [0, 0, 1, 2, 2, 1] utf8 = Inr (utf8 @ out)) \<and>
   (0 \<notin> set pre \<or> 1 \<notin> set pre \<longrightarrow>
      (\<exists>msg. CompressIndicesToUtf8 enc (pre @ 2 # rest) utf8 = Inl (CheckFailed msg)))"
proof (intro conjI impI)
  show "CompressIndicesToUtf8 delta_trace [0, 0, 1, 2, 2, 1] [] = Inr [0, 1, 0, 0, 1, 2]"
    by (simp add: CompressIndicesToUtf8_def delta_trace_def)
next
  assume "encode_all enc [0, 1, 0, 0, 1, 2] = Some out"
  then show "CompressIndicesToUtf8 enc [0, 0, 1, 2, 2, 1] utf8 = Inr (utf8 @ out)"
    by (auto simp add: CompressIndicesToUtf8_def split: option.splits)
next
  assume missing: "0 \<notin> set pre \<or> 1 \<notin> set pre"
  have "\<not> 2 \<le> uint (mark_after 0 pre)"
  proof
    assume "2 \<le> uint (mark_after 0 pre)"
    then have "0 < uint (mark_after 0 pre)" "1 < uint (mark_after 0 pre)" by simp_all
    from mark_after_seen [OF _ this(1)] mark_after_seen [OF _ this(2)]
    have "0 \<in> set pre \<and> 1 \<in> set pre" by simp
    with missing show False by blast
  qed
  then have "\<not> index_accepted enc (mark_after 0 pre) 2" by (simp add: index_accepted_def)
  then show "\<exists>msg. CompressIndicesToUtf8 enc (pre @ 2 # rest) utf8 = Inl (CheckFailed msg)"
    unfolding CompressIndicesToUtf8_def by (rule loop_refused)
qed

theorem CompressIndicesToUtf8_concrete_witness:
  "encode_all delta_trace [0, 1, 0, 0, 1, 2] = Some [0, 1, 0, 0, 1, 2] \<and>
   CompressIndicesToUtf8 delta_trace [0, 0, 1, 2, 2, 1] [7] = Inr [7, 0, 1, 0, 0, 1, 2] \<and>
   1 \<notin> set [0 :: int] \<and>
   CompressIndicesToUtf8 delta_trace ([0] @ 2 # [1]) [] =
     Inl (CheckFailed ''index <= index_high_water_mark'')"
  using CompressIndicesToUtf8_concrete
    [of delta_trace "[0, 1, 0, 0, 1, 2]" "[7]" "[0]" "[1]"]
  by (simp add: delta_trace_def CompressIndicesToUtf8_def)

text \<open>
  The delta sequence the specification gives for \<open>[0, 0, 1, 2, 2, 1]\<close> is not the one
  the code produces: the second index 0 is read when the mark is already 1.
\<close>

theorem CompressIndicesToUtf8_concrete_counterexample:
  "CompressIndicesToUtf8 delta_trace [0, 0, 1, 2, 2, 1] [] \<noteq> Inr [0, 0, 0, 0, 1, 2]"
  by (simp add: CompressIndicesToUtf8_def delta_trace_def)

text \<open>
  Claim C10. A negative index is a hard failure: the list is refused at the first check of
  the iteration that reads it (unless an earlier index was refused already), whatever
  the mark is, and so every list that holds a negative index is refused.
\<close>

theorem CompressIndicesToUtf8_negative:
  "(i < 0 \<longrightarrow>
      CompressIndicesToUtf8 enc (pre @ i # rest) utf8 =
        (case CompressIndicesToUtf8 enc pre utf8 of
           Inl e \<Rightarrow> Inl e
         | Inr out \<Rightarrow> Inl (CheckFailed ''index >= 0''))) \<and>
   (list_ex negative_index list \<longrightarrow>
      (\<exists>msg. CompressIndicesToUtf8 enc list utf8 = Inl (CheckFailed msg)))"
  unfolding CompressIndicesToUtf8_def
  using negative_refused [of list enc 0 utf8]
  by (simp add: loop_append split: sum.splits)

theorem CompressIndicesToUtf8_negative_witness:
  "(- 1 :: int) < 0 \<and> list_ex negative_index [0, - 1, 1] \<and>
   CompressIndicesToUtf8 delta_trace [0] [] = Inr [0] \<and>
   CompressIndicesToUtf8 delta_trace ([0] @ - 1 # [1]) [] = Inl (CheckFailed ''index >= 0'')"
  using CompressIndicesToUtf8_negative [of "- 1" delta_trace "[0]" "[1]" "[]" "[0, - 1, 1]"]
  by (simp add: delta_trace_def CompressIndicesToUtf8_def negative_index_def)

section \<open>Properties of the bounds and of the quantization parameters\<close>

lemma upt_0_8: "[0..<8] = [0, 1, 2, 3, 4, 5, 6, 7]"
  by (simp add: upt_rec)

lemma upt_0_3: "[0..<3] = [0, 1, 2]"
  by (simp add: upt_rec)

lemma upt_3_5: "[3..<5] = [3, 4]"
  by (simp add: upt_rec)

lemma upt_5_8: "[5..<8] = [5, 6, 7]"
  by (simp add: upt_rec)

lemma less_8_cases:
  "i < (8::nat) \<longleftrightarrow> i = 0 \<or> i = 1 \<or> i = 2 \<or> i = 3 \<or> i = 4 \<or> i = 5 \<or> i = 6 \<or> i = 7"
  by arith

lemma Clear_mins: "i < 8 \<Longrightarrow> mins (Clear b) i = FLT_MAX"
  by (auto simp add: Clear_def upt_0_8 less_8_cases)

lemma Clear_maxes: "i < 8 \<Longrightarrow> maxes (Clear b) i = fneg FLT_MAX"
  by (auto simp add: Clear_def upt_0_8 less_8_cases)

text \<open>
  Claim C9, as amended. After \<open>Clear\<close>, every one of the 8 channels has as minimum
  \<open>FLT_MAX\<close>, the largest finite single-precision value, and as maximum \<open>-FLT_MAX\<close>.
\<close>

theorem Clear_extremes:
  "i < 8 \<longrightarrow>
     mins (Clear bounds) i = FLT_MAX \<and> maxes (Clear bounds) i = fneg FLT_MAX \<and>
     fneg FLT_MAX = Finite (- (2 ^ 128 - 2 ^ 104))"
  by (simp add: Clear_mins Clear_maxes) (simp add: FLT_MAX_def)

theorem Clear_extremes_witness:
  "(3::nat) < 8 \<and> mins (Clear example_bounds) 3 = Finite (2 ^ 128 - 2 ^ 104) \<and>
   maxes (Clear example_bounds) 3 = Finite (- (2 ^ 128 - 2 ^ 104))"
  using Clear_extremes [of 3 example_bounds] by (simp add: FLT_MAX_def)

text \<open>The sentinels are finite: they are not the infinities of the specification.\<close>

theorem Clear_extremes_counterexample:
  "mins (Clear example_bounds) 0 \<noteq> PlusInf \<and> maxes (Clear example_bounds) 0 \<noteq> MinusInf"
  by (simp add: Clear_mins Clear_maxes FLT_MAX_def)

lemma largest_of_three:
  assumes "x \<noteq> NaN" "y \<noteq> NaN" "z \<noteq> NaN"
    and "s = (if fgt x y then (if fgt x z then x else z) else (if fgt y z then y else z))"
  shows "fle x s \<and> fle y s \<and> fle z s"
  using assms unfolding fle_def
  by (cases x; cases y; cases z) auto

lemma FromBounds_position:
  assumes "i < 3"
  shows "offsets (FromBounds rnd ret b) i = fneg (mins b i) \<and>
     scales (FromBounds rnd ret b) i = UniformScaleFromBounds rnd b \<and>
     bits (FromBounds rnd ret b) i = 14"
proof -
  from assms have "i = 0 \<or> i = 1 \<or> i = 2" by arith
  then show ?thesis
    by (auto simp add: FromBounds_def upt_0_3 upt_3_5 upt_5_8 Let_def)
qed

lemma FromBounds_texcoord:
  assumes "3 \<le> i" "i < 5"
  shows "offsets (FromBounds rnd ret b) i = fneg (mins b i) \<and>
     scales (FromBounds rnd ret b) i = fsub rnd (maxes b i) (mins b i) \<and>
     bits (FromBounds rnd ret b) i = 10"
proof -
  from assms have "i = 3 \<or> i = 4" by arith
  then show ?thesis
    by (auto simp add: FromBounds_def upt_0_3 upt_3_5 upt_5_8 Let_def)
qed

lemma FromBounds_normal:
  assumes "5 \<le> i" "i < 8"
  shows "offsets (FromBounds rnd ret b) i = Finite 1 \<and>
     scales (FromBounds rnd ret b) i = Finite 2 \<and>
     bits (FromBounds rnd ret b) i = 10"
proof -
  from assms have "i = 5 \<or> i = 6 \<or> i = 7" by arith
  then show ?thesis
    by (auto simp add: FromBounds_def upt_0_3 upt_3_5 upt_5_8 Let_def)
qed

text \<open>
  Claim C6. For every bounds value, the position channels 0-2 get the offset \<open>-min\<close>, the
  one uniform scale and 14 bits; the uniform scale is one of the three extents
  \<open>max - min\<close> of the position channels and, when none of them is a NaN, no extent is
  greater. The texcoord channels 3-4 get the offset \<open>-min\<close>, their own extent as scale
  and 10 bits; the normal channels 5-7 get the offset 1, the scale 2 and 10 bits.
\<close>

theorem FromBounds_parameters:
  fixes rnd ret bounds
  defines "p \<equiv> FromBounds rnd ret bounds"
    and "s \<equiv> UniformScaleFromBounds rnd bounds"
    and "dx \<equiv> fsub rnd (maxes bounds 0) (mins bounds 0)"
    and "dy \<equiv> fsub rnd (maxes bounds 1) (mins bounds 1)"
    and "dz \<equiv> fsub rnd (maxes bounds 2) (mins bounds 2)"
  shows
  "(i < 3 \<longrightarrow> offsets p i = fneg (mins bounds i) \<and> scales p i = s \<and> bits p i = 14) \<and>
   (s = dx \<or> s = dy \<or> s = dz) \<and>
   (dx \<noteq> NaN \<and> dy \<noteq> NaN \<and> dz \<noteq> NaN \<longrightarrow> fle dx s \<and> fle dy s \<and> fle dz s) \<and>
   (3 \<le> i \<and> i < 5 \<longrightarrow>
      offsets p i = fneg (mins bounds i) \<and>
      scales p i = fsub rnd (maxes bounds i) (mins bounds i) \<and> bits p i = 10) \<and>
   (5 \<le> i \<and> i < 8 \<longrightarrow> offsets p i = Finite 1 \<and> scales p i = Finite 2 \<and> bits p i = 10)"
proof -
  have s_eq: "s = (if fgt dx dy then (if fgt dx dz then dx else dz)
                   else (if fgt dy dz then dy else dz))"
    by (simp add: s_def dx_def dy_def dz_def UniformScaleFromBounds_def Let_def)
  then have "s = dx \<or> s = dy \<or> s = dz"
    by presburger
  moreover have "fle dx s \<and> fle dy s \<and> fle dz s" if "dx \<noteq> NaN" "dy \<noteq> NaN" "dz \<noteq> NaN"
    using that s_eq by (rule largest_of_three)
  ultimately show ?thesis
    unfolding p_def s_def
    using FromBounds_position [of i rnd ret bounds] FromBounds_texcoord [of i rnd ret bounds]
      FromBounds_normal [of i rnd ret bounds]
    by blast
qed

theorem FromBounds_parameters_witness:
  "offsets (FromBounds Finite example_params example_bounds) 0 = Finite 0 \<and>
   scales (FromBounds Finite example_params example_bounds) 0 = Finite 3 \<and>
   bits (FromBounds Finite example_params example_bounds) 0 = 14 \<and>
   fle (Finite 1) (Finite 3) \<and> fle (Finite 2) (Finite 3) \<and> fle (Finite 3) (Finite 3) \<and>
   offsets (FromBounds Finite example_params example_bounds) 4 = Finite 0 \<and>
   scales (FromBounds Finite example_params example_bounds) 4 = Finite 5 \<and>
   bits (FromBounds Finite example_params example_bounds) 4 = 10 \<and>
   offsets (FromBounds Finite example_params example_bounds) 7 = Finite 1 \<and>
   scales (FromBounds Finite example_params example_bounds) 7 = Finite 2 \<and>
   bits (FromBounds Finite example_params example_bounds) 7 = 10"
  using FromBounds_parameters [of 0 Finite example_params example_bounds]
    FromBounds_parameters [of 4 Finite example_params example_bounds]
    FromBounds_parameters [of 7 Finite example_params example_bounds]
  by (simp add: UniformScaleFromBounds_def example_bounds_def)

section \<open>Properties of the attribute compressor\<close>

declare CompressQuantizedAttribsToUtf8_channel.simps [simp del]
declare CompressQuantizedAttribsToUtf8_from.simps [simp del]
declare channel_from.simps [simp del]

text \<open>The bit trick of \<open>ZigZag\<close> computes the arithmetic \<open>zigzag\<close> of the specification.\<close>

lemma drop_bit_15_nonneg:
  assumes "- 32768 \<le> n" "n < 32768" "0 \<le> n"
  shows "drop_bit 15 (n::int) = 0"
  using assms by (simp add: drop_bit_eq_div)

lemma drop_bit_15_neg:
  assumes "- 32768 \<le> n" "n < 32768" "\<not> 0 \<le> n"
  shows "drop_bit 15 (n::int) = - 1"
proof -
  have "n div 32768 = - 1"
  proof (rule int_div_pos_eq)
    show "n = 32768 * - 1 + (n + 32768)" by simp
    show "0 \<le> n + 32768" using assms by simp
    show "n + 32768 < 32768" using assms by simp
  qed
  then show ?thesis by (simp add: drop_bit_eq_div)
qed

lemma minus_1_xor_int: "(- 1 :: int) XOR k = - k - 1"
proof -
  have "(- 1 :: int) XOR k = NOT k" by (rule bit_eqI) (simp add: bit_simps)
  then show ?thesis by (simp add: not_int_def)
qed

lemma zigzag_int:
  assumes "- 32768 \<le> n" "n < 32768"
  shows "drop_bit 15 n XOR push_bit 1 n = zigzag (n::int)"
proof (cases "0 \<le> n")
  case True
  with assms have "drop_bit 15 n = 0" by (rule drop_bit_15_nonneg)
  then have "drop_bit 15 n XOR push_bit 1 n = 2 * n" by (simp add: push_bit_eq_mult)
  with True show ?thesis by (simp add: zigzag_def)
next
  case False
  with assms have "drop_bit 15 n = - 1" by (rule drop_bit_15_neg)
  then have "drop_bit 15 n XOR push_bit 1 n = - (2 * n) - 1"
    by (simp only: minus_1_xor_int) (simp add: push_bit_eq_mult)
  with False show ?thesis by (simp add: zigzag_def)
qed

lemma ZigZag_zigzag: "ZigZag w = word_of_int (zigzag (sint w))"
proof -
  have "- 32768 \<le> sint w" "sint w < 32768"
    using sint_ge [of w] sint_lt [of w] by simp_all
  then have "drop_bit 15 (sint w) XOR push_bit 1 (sint w) = zigzag (sint w)"
    by (rule zigzag_int)
  then show ?thesis unfolding ZigZag_def by (rule arg_cong)
qed

lemma encode_all_append:
  "encode_all enc (xs @ ys) =
     (case encode_all enc xs of
        None \<Rightarrow> None
      | Some a \<Rightarrow> map_option ((@) a) (encode_all enc ys))"
proof (induction xs)
  case Nil
  show ?case by (cases "encode_all enc ys") simp_all
next
  case (Cons x xs)
  then show ?case
    by (cases "encode_all enc ys") (auto split: option.splits)
qed

text \<open>One channel: the inner loop encodes the zigzagged deltas of the values it reads.\<close>

lemma channel_loop:
  "CompressQuantizedAttribsToUtf8_channel enc attribs prev j utf8 =
     (case encode_all enc (delta_zigzag prev (channel_from attribs j)) of
        None \<Rightarrow> Inl (CheckFailed ''Uint16ToUtf8(za, utf8)'')
      | Some out \<Rightarrow> Inr (utf8 @ out))"
proof (induction enc attribs prev j utf8 rule: CompressQuantizedAttribsToUtf8_channel.induct)
  case (1 enc attribs prev j utf8)
  show ?case
  proof (cases "j < length attribs")
    case False
    then show ?thesis
      by (simp add: CompressQuantizedAttribsToUtf8_channel.simps [of enc attribs prev j]
          channel_from.simps [of attribs j])
  next
    case True
    let ?za = "ZigZag (word_of_int (uint (attribs ! j) - uint prev))"
    have za: "?za = word_of_int (zigzag (sint (attribs ! j - prev)))"
      by (simp only: ZigZag_zigzag word_sub_wi [symmetric])
    show ?thesis
    proof (cases "enc ?za")
      case None
      with True za show ?thesis
        by (simp add: CompressQuantizedAttribsToUtf8_channel.simps [of enc attribs prev j]
            channel_from.simps [of attribs j])
    next
      case (Some out)
      with True za "1.IH" [OF True Some] show ?thesis
        by (simp add: CompressQuantizedAttribsToUtf8_channel.simps [of enc attribs prev j]
            channel_from.simps [of attribs j] split: option.splits)
    qed
  qed
qed

lemma channel_from_records:
  assumes "length attribs = 8 * n" "c < 8"
  shows "k \<le> n \<Longrightarrow>
    channel_from attribs (8 * k + c) = map (\<lambda>v. attribs ! (8 * v + c)) [k..<n]"
proof (induction "n - k" arbitrary: k)
  case 0
  with assms show ?case by (simp add: channel_from.simps [of attribs "8 * k + c"])
next
  case (Suc d)
  then have k: "k < n" by simp
  with assms have "8 * k + c < length attribs" by simp
  then have "channel_from attribs (8 * k + c) =
      attribs ! (8 * k + c) # channel_from attribs (8 * k + c + 8)"
    by (simp add: channel_from.simps [of attribs "8 * k + c"])
  moreover have "8 * k + c + 8 = 8 * Suc k + c" by simp
  moreover have "channel_from attribs (8 * Suc k + c) =
      map (\<lambda>v. attribs ! (8 * v + c)) [Suc k..<n]"
    using Suc k by (intro Suc.hyps(1)) simp_all
  ultimately have "channel_from attribs (8 * k + c) =
      attribs ! (8 * k + c) # map (\<lambda>v. attribs ! (8 * v + c)) [Suc k..<n]"
    by (simp only:)
  with k show ?case by (simp add: upt_conv_Cons)
qed

lemma channel_from_values:
  assumes "whole_records attribs" "c < 8"
  shows "channel_from attribs c = channel_values c attribs"
proof -
  from assms(1) have "length attribs = 8 * (length attribs div 8)"
    by (auto simp: whole_records_def)
  from channel_from_records [OF this assms(2), of 0] show ?thesis
    by (simp add: channel_values_def)
qed

text \<open>The outer loop: the channels from \<open>i\<close> on, one after the other.\<close>

lemma from_loop:
  "CompressQuantizedAttribsToUtf8_from enc attribs i utf8 =
     (case encode_all enc
        (concat (map (\<lambda>c. delta_zigzag 0 (channel_from attribs c)) [i..<8])) of
        None \<Rightarrow> Inl (CheckFailed ''Uint16ToUtf8(za, utf8)'')
      | Some out \<Rightarrow> Inr (utf8 @ out))"
proof (induction enc attribs i utf8 rule: CompressQuantizedAttribsToUtf8_from.induct)
  case (1 enc attribs i utf8)
  show ?case
  proof (cases "i < 8")
    case False
    then show ?thesis
      by (simp add: CompressQuantizedAttribsToUtf8_from.simps [of enc attribs i])
  next
    case True
    then have upt: "[i..<8] = i # [i + 1..<8]" by (simp add: upt_conv_Cons)
    show ?thesis
    proof (cases "encode_all enc (delta_zigzag 0 (channel_from attribs i))")
      case None
      with True show ?thesis
        by (simp add: CompressQuantizedAttribsToUtf8_from.simps [of enc attribs i]
            channel_loop upt encode_all_append)
    next
      case (Some out)
      then have "CompressQuantizedAttribsToUtf8_channel enc attribs 0 i utf8 = Inr (utf8 @ out)"
        by (simp add: channel_loop)
      from "1.IH" [OF True this] True Some this show ?thesis
        by (simp add: CompressQuantizedAttribsToUtf8_from.simps [of enc attribs i]
            upt encode_all_append split: option.splits)
    qed
  qed
qed

lemma attribs_buffer:
  "CompressQuantizedAttribsToUtf8 enc attribs utf8 =
     (case CompressQuantizedAttribsToUtf8 enc attribs [] of
        Inl e \<Rightarrow> Inl e | Inr out \<Rightarrow> Inr (utf8 @ out))"
  by (simp add: CompressQuantizedAttribsToUtf8_def from_loop split: option.splits)

text \<open>
  Claim C4. On a buffer of whole records the attribute compressor handles the 8 channels
  one after the other, channel 0 of every vertex first; in each channel \<open>previous\<close>
  starts at 0 and every value \<open>v\<close>, in vertex order, is encoded as the zigzag of the 16-bit
  wrap-around difference \<open>v - previous\<close>. The output is the given buffer followed by the
  encodings of exactly these values (a hard failure if the encoder refuses one).
\<close>

theorem CompressQuantizedAttribsToUtf8_transposed:
  assumes "whole_records attribs"
  shows "CompressQuantizedAttribsToUtf8 enc attribs utf8 =
     (case encode_all enc (transposed_deltas attribs) of
        None \<Rightarrow> Inl (CheckFailed ''Uint16ToUtf8(za, utf8)'')
      | Some out \<Rightarrow> Inr (utf8 @ out))"
proof -
  have "map (\<lambda>c. delta_zigzag 0 (channel_from attribs c)) [0..<8] =
        map (\<lambda>c. delta_zigzag 0 (channel_values c attribs)) [0..<8]"
    using assms by (intro map_cong) (simp_all add: channel_from_values)
  then show ?thesis
    by (simp only: CompressQuantizedAttribsToUtf8_def from_loop transposed_deltas_def)
qed

theorem CompressQuantizedAttribsToUtf8_transposed_witness:
  "whole_records example_attribs \<and>
   transposed_deltas example_attribs =
     [20, 2, 40, 3, 60, 0, 80, 81, 100, 99, 120, 2, 140, 1, 160, 0] \<and>
   CompressQuantizedAttribsToUtf8 delta_trace example_attribs [] =
     Inr [20, 2, 40, 3, 60, 0, 80, 81, 100, 99, 120, 2, 140, 1, 160, 0]"
  using CompressQuantizedAttribsToUtf8_transposed [of example_attribs delta_trace "[]"]
  by (simp add: whole_records_def transposed_deltas_def channel_values_def
      example_attribs_def upt_rec zigzag_def delta_trace_def)

section \<open>Properties of the stream assembler\<close>

lemma and_7_eq_mod_8: "(n::nat) AND 7 = n mod 8"
proof -
  have "(7::nat) = mask 3" by (simp add: mask_eq_exp_minus_1)
  then have "n AND 7 = take_bit 3 n" by (simp only: take_bit_eq_mask)
  then show ?thesis by (simp add: take_bit_eq_mod)
qed

lemma indices_buffer:
  "CompressIndicesToUtf8 enc list utf8 =
     (case CompressIndicesToUtf8 enc list [] of
        Inl e \<Rightarrow> Inl e | Inr out \<Rightarrow> Inr (utf8 @ out))"
  unfolding CompressIndicesToUtf8_def by (rule loop_buffer)

lemma assembler_success:
  assumes "whole_records attribs" "0 < length attribs div 8" "length attribs div 8 < 65536"
    and "enc (of_nat (length attribs div 8 - 1)) = Some header"
    and "CompressQuantizedAttribsToUtf8 enc attribs [] = Inr attrib_out"
    and "CompressIndicesToUtf8 enc indices [] = Inr index_out"
    and "can_open fn"
    and "length (header @ attrib_out @ index_out) \<le> written fn (header @ attrib_out @ index_out)"
  shows "CompressSimpleMeshToFile enc can_open written attribs indices fn files =
    (None, files(fn \<mapsto> header @ attrib_out @ index_out))"
proof -
  have "CompressQuantizedAttribsToUtf8 enc attribs header = Inr (header @ attrib_out)"
    using assms(5) by (subst attribs_buffer) simp
  moreover have "CompressIndicesToUtf8 enc indices (header @ attrib_out) =
      Inr (header @ attrib_out @ index_out)"
    using assms(6) by (subst indices_buffer) simp
  moreover have "take (written fn (header @ attrib_out @ index_out))
      (header @ attrib_out @ index_out) = header @ attrib_out @ index_out"
    using assms(8) by (rule take_all)
  ultimately show ?thesis
    using assms(1-4,7)
    by (simp add: CompressSimpleMeshToFile_def and_7_eq_mod_8 whole_records_def)
qed

lemma assembler_untouched:
  "fst (CompressSimpleMeshToFile enc can_open written attribs indices fn files) = None \<or>
   snd (CompressSimpleMeshToFile enc can_open written attribs indices fn files) = files"
  by (simp add: CompressSimpleMeshToFile_def Let_def split: option.splits sum.splits)

lemma assembler_precondition:
  assumes "\<not> whole_records attribs \<or> length attribs div 8 = 0 \<or> 65536 \<le> length attribs div 8"
  shows "\<exists>e. CompressSimpleMeshToFile enc can_open written attribs indices fn files =
    (Some e, files)"
  using assms
  by (auto simp add: CompressSimpleMeshToFile_def and_7_eq_mod_8 whole_records_def Let_def)

lemma assembler_indices:
  assumes "CompressIndicesToUtf8 enc indices [] = Inl e"
  shows "\<exists>e. CompressSimpleMeshToFile enc can_open written attribs indices fn files =
    (Some e, files)"
proof -
  have "CompressIndicesToUtf8 enc indices utf8 = Inl e" for utf8
    using assms by (subst indices_buffer) simp
  then show ?thesis
    by (simp add: CompressSimpleMeshToFile_def Let_def split: option.splits sum.splits)
qed

lemma assembler_not_opened:
  assumes "\<not> can_open fn"
  shows "\<exists>e. CompressSimpleMeshToFile enc can_open written attribs indices fn files =
    (Some e, files)"
  using assms
  by (simp add: CompressSimpleMeshToFile_def Let_def split: option.splits sum.splits)

text \<open>
  Claim C5. When every check passes (and the file opens and takes the whole buffer), the
  file receives exactly the encoding of \<open>vertex_count - 1\<close>, followed by the whole output
  of the attribute compressor, followed by the whole output of the index compressor. An
  attribute buffer whose length is not a multiple of 8, a vertex count of 0 or of 65536
  and more, and an index list that breaks the high-water-mark invariant or that the index
  compressor refuses for any other reason each end the run with an error and with the
  files as they were; and whenever the run ends with an error, no file has been written.
\<close>

theorem CompressSimpleMeshToFile_stream:
  "(whole_records attribs \<and> 0 < length attribs div 8 \<and> length attribs div 8 < 65536 \<and>
    enc (of_nat (length attribs div 8 - 1)) = Some header \<and>
    CompressQuantizedAttribsToUtf8 enc attribs [] = Inr attrib_out \<and>
    CompressIndicesToUtf8 enc indices [] = Inr index_out \<and>
    can_open fn \<and>
    length (header @ attrib_out @ index_out) \<le> written fn (header @ attrib_out @ index_out) \<longrightarrow>
      CompressSimpleMeshToFile enc can_open written attribs indices fn files =
        (None, files(fn \<mapsto> header @ attrib_out @ index_out))) \<and>
   (\<not> whole_records attribs \<or> length attribs div 8 = 0 \<or> 65536 \<le> length attribs div 8 \<or>
    hwm_deltas 0 indices = None \<or> isl (CompressIndicesToUtf8 enc indices []) \<or>
    \<not> can_open fn \<longrightarrow>
      (\<exists>e. CompressSimpleMeshToFile enc can_open written attribs indices fn files =
        (Some e, files))) \<and>
   (fst (CompressSimpleMeshToFile enc can_open written attribs indices fn files) = None \<or>
    snd (CompressSimpleMeshToFile enc can_open written attribs indices fn files) = files)"
proof (intro conjI impI)
  assume "whole_records attribs \<and> 0 < length attribs div 8 \<and> length attribs div 8 < 65536 \<and>
    enc (of_nat (length attribs div 8 - 1)) = Some header \<and>
    CompressQuantizedAttribsToUtf8 enc attribs [] = Inr attrib_out \<and>
    CompressIndicesToUtf8 enc indices [] = Inr index_out \<and>
    can_open fn \<and>
    length (header @ attrib_out @ index_out) \<le> written fn (header @ attrib_out @ index_out)"
  then show "CompressSimpleMeshToFile enc can_open written attribs indices fn files =
        (None, files(fn \<mapsto> header @ attrib_out @ index_out))"
    by (blast intro: assembler_success)
next
  assume "\<not> whole_records attribs \<or> length attribs div 8 = 0 \<or> 65536 \<le> length attribs div 8 \<or>
    hwm_deltas 0 indices = None \<or> isl (CompressIndicesToUtf8 enc indices []) \<or>
    \<not> can_open fn"
  then consider
    "\<not> whole_records attribs \<or> length attribs div 8 = 0 \<or> 65536 \<le> length attribs div 8"
    | "hwm_deltas 0 indices = None"
    | "isl (CompressIndicesToUtf8 enc indices [])"
    | "\<not> can_open fn"
    by argo
  then show "\<exists>e. CompressSimpleMeshToFile enc can_open written attribs indices fn files =
    (Some e, files)"
  proof cases
    case 1
    then show ?thesis by (rule assembler_precondition)
  next
    case 2
    have "uint (0 :: uint16) \<le> 0" by simp
    from hwm_deltas_None [OF this 2, of enc "[]"]
    obtain msg where "CompressIndicesToUtf8 enc indices [] = Inl (CheckFailed msg)"
      unfolding CompressIndicesToUtf8_def by blast
    then show ?thesis by (rule assembler_indices)
  next
    case 3
    then obtain e where "CompressIndicesToUtf8 enc indices [] = Inl e"
      by (cases "CompressIndicesToUtf8 enc indices []") simp_all
    then show ?thesis by (rule assembler_indices)
  next
    case 4
    then show ?thesis by (rule assembler_not_opened)
  qed
next
  show "fst (CompressSimpleMeshToFile enc can_open written attribs indices fn files) = None \<or>
    snd (CompressSimpleMeshToFile enc can_open written attribs indices fn files) = files"
    by (rule assembler_untouched)
qed

theorem CompressSimpleMeshToFile_stream_witness:
  "whole_records example_attribs \<and>
   delta_trace (of_nat (length example_attribs div 8 - 1)) = Some [1] \<and>
   CompressQuantizedAttribsToUtf8 delta_trace example_attribs [] =
     Inr [20, 2, 40, 3, 60, 0, 80, 81, 100, 99, 120, 2, 140, 1, 160, 0] \<and>
   CompressIndicesToUtf8 delta_trace example_indices [] = Inr [0, 0, 2, 1, 1, 2] \<and>
   always_open ''out.utf8'' \<and>
   CompressSimpleMeshToFile delta_trace always_open writes_all example_attribs example_indices
       ''out.utf8'' Map.empty =
     (None, [''out.utf8'' \<mapsto>
       [1, 20, 2, 40, 3, 60, 0, 80, 81, 100, 99, 120, 2, 140, 1, 160, 0, 0, 0, 2, 1, 1, 2]]) \<and>
   hwm_deltas 0 [0, 65535] = None \<and>
   CompressSimpleMeshToFile delta_trace always_open writes_all example_attribs [0, 65535]
       ''out.utf8'' Map.empty =
     (Some (CheckFailed ''index <= index_high_water_mark''), Map.empty) \<and>
   CompressSimpleMeshToFile delta_trace never_open writes_all example_attribs example_indices
       ''out.utf8'' Map.empty =
     (Some Undefined, Map.empty)"
  using CompressSimpleMeshToFile_stream
    [where attribs = example_attribs and enc = delta_trace and header = "[1]"
       and attrib_out = "[20, 2, 40, 3, 60, 0, 80, 81, 100, 99, 120, 2, 140, 1, 160, 0]"
       and indices = example_indices and index_out = "[0, 0, 2, 1, 1, 2]"
       and can_open = always_open and fn = "''out.utf8''" and written = writes_all
       and files = Map.empty]
    CompressSimpleMeshToFile_stream
    [where attribs = example_attribs and enc = delta_trace and indices = "[0, 65535]"
       and can_open = always_open and fn = "''out.utf8''" and written = writes_all
       and files = Map.empty and header = "[]" and attrib_out = "[]" and index_out = "[]"]
    CompressSimpleMeshToFile_stream
    [where attribs = example_attribs and enc = delta_trace and indices = example_indices
       and can_open = never_open and fn = "''out.utf8''" and written = writes_all
       and files = Map.empty and header = "[]" and attrib_out = "[]" and index_out = "[]"]
  by (simp add: whole_records_def example_attribs_def example_indices_def delta_trace_def
      CompressQuantizedAttribsToUtf8_def CompressQuantizedAttribsToUtf8_from.simps
      CompressQuantizedAttribsToUtf8_channel.simps ZigZag_def CompressIndicesToUtf8_def
      CompressSimpleMeshToFile_def and_7_eq_mod_8 always_open_def never_open_def
      writes_all_def)

section \<open>Properties of the index flattener\<close>

subsection \<open>First occurrences\<close>

lemma index_of_less: "k \<in> set xs \<Longrightarrow> index_of xs k < length xs"
  by (induction xs) auto

lemma nth_index_of: "k \<in> set xs \<Longrightarrow> xs ! index_of xs k = k"
  by (induction xs) auto

lemma index_of_append: "k \<in> set xs \<Longrightarrow> index_of (xs @ ys) k = index_of xs k"
  by (induction xs) auto

lemma index_of_new: "k \<notin> set xs \<Longrightarrow> index_of (xs @ k # ys) k = length xs"
  by (induction xs) auto

lemma index_of_nth: "distinct xs \<Longrightarrow> i < length xs \<Longrightarrow> index_of xs (xs ! i) = i"
proof (induction xs arbitrary: i)
  case Nil
  then show ?case by simp
next
  case (Cons x xs)
  then show ?case by (cases i) auto
qed

lemma index_of_image: "distinct xs \<Longrightarrow> index_of xs ` set xs = {0..<length xs}"
proof (intro equalityI subsetI)
  fix i assume "i \<in> index_of xs ` set xs"
  then show "i \<in> {0..<length xs}" by (auto simp: index_of_less)
next
  fix i assume "distinct xs" "i \<in> {0..<length xs}"
  then have "index_of xs (xs ! i) = i" "xs ! i \<in> set xs" by (simp_all add: index_of_nth)
  then show "i \<in> index_of xs ` set xs" by (metis imageI)
qed

lemma set_seen_with: "set (seen_with seen k) = insert k (set seen)"
  by (auto simp: seen_with_def)

lemma distinct_seen_with: "distinct seen \<Longrightarrow> distinct (seen_with seen k)"
  by (simp add: seen_with_def)

lemma set_seen_after: "set (seen_after seen ts) = set seen \<union> set ts"
  by (induction ts arbitrary: seen) (auto simp: set_seen_with)

lemma distinct_seen_after: "distinct seen \<Longrightarrow> distinct (seen_after seen ts)"
  by (induction ts arbitrary: seen) (simp_all add: distinct_seen_with)

lemma seen_after_append: "seen_after seen (xs @ ys) = seen_after (seen_after seen xs) ys"
  by (induction xs arbitrary: seen) simp_all

lemma seen_after_extends: "\<exists>more. seen_after seen ts = seen @ more"
proof (induction ts arbitrary: seen)
  case Nil
  show ?case by simp
next
  case (Cons k ks)
  from Cons [of "seen_with seen k"] obtain more
    where "seen_after (seen_with seen k) ks = seen_with seen k @ more" by blast
  then show ?case by (cases "k \<in> set seen") (simp_all add: seen_with_def)
qed

lemma index_of_seen_after:
  "k \<in> set seen \<Longrightarrow> index_of (seen_after seen ts) k = index_of seen k"
  using seen_after_extends [of seen ts] by (auto simp: index_of_append)

lemma length_seen_after:
  "distinct seen \<Longrightarrow> length (seen_after seen ts) = card (set seen \<union> set ts)"
  using distinct_card [OF distinct_seen_after, of seen ts] by (simp add: set_seen_after)

lemma length_flat_answers: "length (flat_answers seen ts) = length ts"
  by (induction ts arbitrary: seen) simp_all

text \<open>Each answer: the place of the triple among the first occurrences, and its novelty.\<close>

lemma flat_answers_nth:
  "i < length ts \<Longrightarrow>
   flat_answers seen ts ! i =
     (int (index_of (seen_after seen ts) (ts ! i)), ts ! i \<notin> set seen \<union> set (take i ts))"
proof (induction ts arbitrary: seen i)
  case Nil
  then show ?case by simp
next
  case (Cons k ks)
  show ?case
  proof (cases i)
    case 0
    show ?thesis
    proof (cases "k \<in> set seen")
      case True
      then have "index_of (seen_after (seen_with seen k) ks) k = index_of seen k"
        by (simp add: seen_with_def index_of_seen_after)
      with True 0 show ?thesis by (simp add: flat_answer_def)
    next
      case False
      then have "index_of (seen_after (seen_with seen k) ks) k = index_of (seen @ [k]) k"
        by (simp add: seen_with_def index_of_seen_after)
      with False 0 show ?thesis by (simp add: flat_answer_def index_of_new)
    qed
  next
    case (Suc j)
    with Cons.prems have "j < length ks" by simp
    from Cons.IH [OF this, of "seen_with seen k"] Suc show ?thesis
      by (simp add: set_seen_with)
  qed
qed

lemma first_occurrence_index:
  assumes "i < length ts" "ts ! i \<notin> set (take i ts)"
  shows "index_of (seen_after [] ts) (ts ! i) = card (set (take i ts))"
proof -
  let ?A = "seen_after [] (take i ts)"
  have ts: "ts = take i ts @ ts ! i # drop (Suc i) ts"
    using assms(1) by (simp add: id_take_nth_drop)
  have A: "set ?A = set (take i ts)" "length ?A = card (set (take i ts))"
    by (simp_all add: set_seen_after length_seen_after)
  with assms(2) have new: "seen_with ?A (ts ! i) = ?A @ [ts ! i]"
    by (simp add: seen_with_def)
  have "seen_after [] ts = seen_after (?A @ [ts ! i]) (drop (Suc i) ts)"
    by (subst ts) (simp add: seen_after_append new)
  then have "index_of (seen_after [] ts) (ts ! i) = index_of (?A @ [ts ! i]) (ts ! i)"
    by (simp add: index_of_seen_after)
  with assms(2) A show ?thesis by (simp add: index_of_new)
qed

lemma flat_answers_image:
  "fst ` set (flat_answers [] ts) = int ` {0..<card (set ts)}"
proof -
  let ?fo = "seen_after [] ts"
  have fo: "set ?fo = set ts" "distinct ?fo" "length ?fo = card (set ts)"
    by (simp_all add: set_seen_after distinct_seen_after length_seen_after)
  have "set (flat_answers [] ts) = (\<lambda>i. flat_answers [] ts ! i) ` {0..<length ts}"
    using length_flat_answers [of "[]" ts] by (auto simp: set_conv_nth)
  then have "fst ` set (flat_answers [] ts) =
      (\<lambda>i. fst (flat_answers [] ts ! i)) ` {0..<length ts}"
    by (simp only: image_image)
  also have "\<dots> = (\<lambda>i. int (index_of ?fo (ts ! i))) ` {0..<length ts}"
    by (intro image_cong) (simp_all add: flat_answers_nth)
  also have "\<dots> = int ` index_of ?fo ` (\<lambda>i. ts ! i) ` {0..<length ts}"
    by (simp only: image_image)
  also have "\<dots> = int ` index_of ?fo ` set ts"
  proof -
    have "(\<lambda>i. ts ! i) ` {0..<length ts} = set ts"
      by (auto simp: set_conv_nth)
    then show ?thesis by (simp only:)
  qed
  also have "\<dots> = int ` {0..<card (set ts)}"
    using index_of_image [OF fo(2)] fo by simp
  finally show ?thesis .
qed

subsection \<open>The state of the flattener\<close>

text \<open>
  \<^verbatim>\<open>operator<\<close> is a strict total order on the keys: the keys it does not order are
  equal.
\<close>

lemma IndexType_less_irrefl: "\<not> IndexType_less a a"
  by (simp add: IndexType_less_def)

lemma IndexType_less_trans:
  "IndexType_less a b \<Longrightarrow> IndexType_less b c \<Longrightarrow> IndexType_less a c"
  by (auto simp add: IndexType_less_def split: if_splits)

lemma IndexType_less_equiv:
  "\<not> IndexType_less a b \<and> \<not> IndexType_less b a \<longleftrightarrow> a = b"
  by (cases a; cases b) (auto simp add: IndexType_less_def)

lemma static_cast_int_small: "int n \<le> INT_MAX \<Longrightarrow> static_cast_int n = int n"
proof -
  assume "int n \<le> INT_MAX"
  then have "- (2 ^ 31) \<le> int n" "int n < 2 ^ 31" by (simp_all add: INT_MAX_def)
  then have "signed_take_bit 31 (int n) = int n" by (rule signed_take_bit_int_eq_self)
  then show ?thesis by (simp add: static_cast_int_def signed_of_nat)
qed

lemma sentinels: "kIndexUnknown \<noteq> kIndexNotInTable" "kIndexUnknown < 0" "kIndexNotInTable < 0"
  by (simp_all add: kIndexUnknown_def kIndexNotInTable_def)

lemma flat_lookup_simp:
  "flat_lookup s (p, t, n) =
     (if p < 0 \<or> \<not> nat p < length (table_m s) then None
      else entry_lookup (map_m s) p (table_m s ! nat p) t n)"
  by (simp add: flat_lookup_def)

lemma entry_lookup_default: "entry_lookup m p IndexType_default t n = None"
  by (simp add: entry_lookup_def IndexType_default_def)

lemma flat_lookup_resize:
  assumes "length (table_m s) \<le> m"
  shows "flat_lookup (s\<lparr>table_m := resize (table_m s) m\<rparr>) k = flat_lookup s k"
proof (cases k)
  case (fields p t n)
  show ?thesis
  proof (cases "nat p < length (table_m s)")
    case True
    with assms show ?thesis
      by (simp add: fields flat_lookup_simp resize_def nth_append)
  next
    case False
    with assms show ?thesis
      by (auto simp add: fields flat_lookup_simp resize_def nth_append entry_lookup_default)
  qed
qed

lemma flattener_inv_resize:
  assumes "flattener_inv s seen" "length (table_m s) \<le> m" "int m \<le> INT_MAX"
  shows "flattener_inv (s\<lparr>table_m := resize (table_m s) m\<rparr>) seen"
proof -
  have "length (resize (table_m s) m) = m"
    using assms(2) by (simp add: resize_def)
  moreover have "resize (table_m s) m ! i = table_m s ! i" if "i < length (table_m s)" for i
    using that assms(2) by (simp add: resize_def nth_append)
  ultimately show ?thesis
    using assms unfolding flattener_inv_def
    by (simp add: flat_lookup_resize) (metis less_le_trans)
qed


lemma flat_lookup_update:
  assumes "0 \<le> p" "nat p < length (table_m s)"
    and "table_m s' = (table_m s)[nat p := e]"
  shows "flat_lookup s' (p', t', n') =
     (if p' = p then entry_lookup (map_m s') p e t' n'
      else if p' < 0 \<or> \<not> nat p' < length (table_m s) then None
      else entry_lookup (map_m s') p' (table_m s ! nat p') t' n')"
proof (cases "p' = p")
  case True
  with assms show ?thesis by (simp add: flat_lookup_simp)
next
  case False
  with assms have "p' < 0 \<or> nat p' \<noteq> nat p" by auto
  with False assms(3) show ?thesis by (auto simp add: flat_lookup_simp)
qed

lemma entry_lookup_other:
  assumes "\<And>t n. m' (IndexType p' t n) = m (IndexType p' t n)"
  shows "entry_lookup m' p' e t' n' = entry_lookup m p' e t' n'"
  by (simp add: entry_lookup_def assms)

lemma flattener_inv_lookup:
  "flattener_inv s seen \<Longrightarrow>
   flat_lookup s k = (if k \<in> set seen then Some (int (index_of seen k)) else None)"
  unfolding flattener_inv_def by blast

lemma flattener_inv_keys:
  "flattener_inv s seen \<Longrightarrow> map_m s (IndexType p t n) \<noteq> None \<Longrightarrow>
   0 \<le> p \<and> nat p < length (table_m s) \<and>
   position_or_flat (table_m s ! nat p) = kIndexNotInTable"
  unfolding flattener_inv_def by blast

lemma index_of_absent: "k \<notin> set xs \<Longrightarrow> index_of xs k = length xs"
  by (induction xs) auto

lemma index_of_snoc:
  "index_of (seen @ [k]) k' =
     (if k' \<in> set seen then index_of seen k' else if k' = k then length seen
      else Suc (length seen))"
proof (cases "k' \<in> set seen")
  case True
  then show ?thesis by (simp add: index_of_append)
next
  case False
  show ?thesis
  proof (cases "k' = k")
    case True
    with False show ?thesis by (simp add: index_of_new)
  next
    case diff: False
    with False have "k' \<notin> set (seen @ [k])" by simp
    from index_of_absent [OF this] False diff show ?thesis by simp
  qed
qed

text \<open>First sight of a position.\<close>

lemma step_unknown:
  assumes inv: "flattener_inv s seen" and p: "0 \<le> p" "nat p < length (table_m s)"
    and e: "position_or_flat (table_m s ! nat p) = kIndexUnknown"
  shows "(p, t, n) \<notin> set seen"
    and "flattener_inv
      (s\<lparr>count_m := count_m s + 1,
          table_m := (table_m s)[nat p := IndexType (count_m s) t n]\<rparr>)
      (seen @ [(p, t, n)])"
proof -
  have none: "flat_lookup s (p, t', n') = None" for t' n'
    using p e by (simp add: flat_lookup_simp entry_lookup_def)
  then show new: "(p, t, n) \<notin> set seen"
    using flattener_inv_lookup [OF inv, of "(p, t, n)"] by (auto split: if_splits)
  have absent: "(p, t', n') \<notin> set seen" for t' n'
    using none [of t' n'] flattener_inv_lookup [OF inv, of "(p, t', n')"]
    by (auto split: if_splits)
  have count: "count_m s = int (length seen)" using inv by (simp add: flattener_inv_def)
  let ?s' = "s\<lparr>count_m := count_m s + 1,
          table_m := (table_m s)[nat p := IndexType (count_m s) t n]\<rparr>"
  have s': "table_m ?s' = (table_m s)[nat p := IndexType (count_m s) t n]"
    "map_m ?s' = map_m s"
    by simp_all
  have L: "flat_lookup ?s' (p', t', n') =
      (if p' = p then entry_lookup (map_m s) p (IndexType (count_m s) t n) t' n'
       else flat_lookup s (p', t', n'))" for p' t' n'
    using flat_lookup_update [OF p s'(1), of p' t' n'] by (simp add: flat_lookup_simp)
  have lookup: "flat_lookup ?s' k =
      (if k \<in> set (seen @ [(p, t, n)]) then Some (int (index_of (seen @ [(p, t, n)]) k))
       else None)" for k
  proof (cases k)
    case (fields p' t' n')
    show ?thesis
    proof (cases "p' = p")
      case True
      have "entry_lookup (map_m s) p (IndexType (count_m s) t n) t' n' =
          (if t' = t \<and> n' = n then Some (int (length seen)) else None)"
        using sentinels by (auto simp add: entry_lookup_def count)
      with True absent [of t' n'] new show ?thesis
        unfolding fields L by (simp add: index_of_snoc)
    next
      case False
      with flattener_inv_lookup [OF inv, of k] show ?thesis
        unfolding fields L by (auto simp add: index_of_snoc)
    qed
  qed
  have keys: "0 \<le> p' \<and> nat p' < length (table_m ?s') \<and>
      position_or_flat (table_m ?s' ! nat p') = kIndexNotInTable"
    if "map_m ?s' (IndexType p' t' n') \<noteq> None" for p' t' n'
  proof -
    from that have k: "0 \<le> p'" "nat p' < length (table_m s)"
      "position_or_flat (table_m s ! nat p') = kIndexNotInTable"
      using flattener_inv_keys [OF inv, of p' t' n'] by simp_all
    with e sentinels have "nat p' \<noteq> nat p" by auto
    with k show ?thesis by simp
  qed
  show "flattener_inv ?s' (seen @ [(p, t, n)])"
    unfolding flattener_inv_def
  proof (intro conjI allI impI)
    show "distinct (seen @ [(p, t, n)])" using inv new by (simp add: flattener_inv_def)
    show "count_m ?s' = int (length (seen @ [(p, t, n)]))" using count by simp
    show "int (length (table_m ?s')) \<le> INT_MAX" using inv by (simp add: flattener_inv_def)
  qed (use lookup keys in blast)+
qed


text \<open>A position that has been moved to the map.\<close>

lemma step_map_hit:
  assumes inv: "flattener_inv s seen" and p: "0 \<le> p" "nat p < length (table_m s)"
    and e: "position_or_flat (table_m s ! nat p) = kIndexNotInTable"
    and hit: "map_m s (IndexType p t n) = Some found"
  shows "(p, t, n) \<in> set seen \<and> found = int (index_of seen (p, t, n))"
proof -
  have "flat_lookup s (p, t, n) = Some found"
    using p e hit sentinels by (simp add: flat_lookup_simp entry_lookup_def)
  with flattener_inv_lookup [OF inv, of "(p, t, n)"] show ?thesis
    by (auto split: if_splits)
qed

lemma step_map_miss:
  assumes inv: "flattener_inv s seen" and p: "0 \<le> p" "nat p < length (table_m s)"
    and e: "position_or_flat (table_m s ! nat p) = kIndexNotInTable"
    and miss: "map_m s (IndexType p t n) = None"
  shows "(p, t, n) \<notin> set seen"
    and "flattener_inv
      (s\<lparr>count_m := count_m s + 1,
          map_m := (map_m s)(IndexType p t n \<mapsto> count_m s)\<rparr>)
      (seen @ [(p, t, n)])"
proof -
  have "flat_lookup s (p, t, n) = None"
    using p e miss sentinels by (simp add: flat_lookup_simp entry_lookup_def)
  then show new: "(p, t, n) \<notin> set seen"
    using flattener_inv_lookup [OF inv, of "(p, t, n)"] by (auto split: if_splits)
  have count: "count_m s = int (length seen)" using inv by (simp add: flattener_inv_def)
  let ?s' = "s\<lparr>count_m := count_m s + 1,
          map_m := (map_m s)(IndexType p t n \<mapsto> count_m s)\<rparr>"
  have L: "flat_lookup ?s' (p', t', n') =
      (if (p', t', n') = (p, t, n) then Some (int (length seen))
       else flat_lookup s (p', t', n'))" for p' t' n'
    using p e sentinels by (auto simp add: flat_lookup_simp entry_lookup_def count)
  have lookup: "flat_lookup ?s' k =
      (if k \<in> set (seen @ [(p, t, n)]) then Some (int (index_of (seen @ [(p, t, n)]) k))
       else None)" for k
  proof (cases k)
    case (fields p' t' n')
    from flattener_inv_lookup [OF inv, of k] new show ?thesis
      unfolding fields L by (auto simp add: index_of_snoc)
  qed
  have keys: "0 \<le> p' \<and> nat p' < length (table_m ?s') \<and>
      position_or_flat (table_m ?s' ! nat p') = kIndexNotInTable"
    if "map_m ?s' (IndexType p' t' n') \<noteq> None" for p' t' n'
    using that p e flattener_inv_keys [OF inv, of p' t' n'] by (auto split: if_splits)
  show "flattener_inv ?s' (seen @ [(p, t, n)])"
    unfolding flattener_inv_def
  proof (intro conjI allI impI)
    show "distinct (seen @ [(p, t, n)])" using inv new by (simp add: flattener_inv_def)
    show "count_m ?s' = int (length (seen @ [(p, t, n)]))" using count by simp
    show "int (length (table_m ?s')) \<le> INT_MAX" using inv by (simp add: flattener_inv_def)
  qed (use lookup keys in blast)+
qed

text \<open>A position cached in the table.\<close>

lemma step_cached_hit:
  assumes inv: "flattener_inv s seen" and p: "0 \<le> p" "nat p < length (table_m s)"
    and e: "position_or_flat (table_m s ! nat p) \<noteq> kIndexUnknown"
      "position_or_flat (table_m s ! nat p) \<noteq> kIndexNotInTable"
    and hit: "texcoord (table_m s ! nat p) = t" "normal (table_m s ! nat p) = n"
  shows "(p, t, n) \<in> set seen \<and>
    position_or_flat (table_m s ! nat p) = int (index_of seen (p, t, n))"
proof -
  have "flat_lookup s (p, t, n) = Some (position_or_flat (table_m s ! nat p))"
    using p e hit by (simp add: flat_lookup_simp entry_lookup_def)
  with flattener_inv_lookup [OF inv, of "(p, t, n)"] show ?thesis
    by (auto split: if_splits)
qed

lemma step_cached_miss:
  assumes inv: "flattener_inv s seen" and p: "0 \<le> p" "nat p < length (table_m s)"
    and e: "position_or_flat (table_m s ! nat p) \<noteq> kIndexUnknown"
      "position_or_flat (table_m s ! nat p) \<noteq> kIndexNotInTable"
    and miss: "\<not> (texcoord (table_m s ! nat p) = t \<and> normal (table_m s ! nat p) = n)"
  defines "old \<equiv> table_m s ! nat p"
  shows "(p, t, n) \<notin> set seen"
    and "map_m s (IndexType p t' n') = None"
    and "flattener_inv
      (s\<lparr>count_m := count_m s + 1,
          table_m := (table_m s)[nat p :=
             IndexType kIndexNotInTable (texcoord old) (normal old)],
          map_m := (map_m s)(IndexType p (texcoord old) (normal old) \<mapsto> position_or_flat old,
                             IndexType p t n \<mapsto> count_m s)\<rparr>)
      (seen @ [(p, t, n)])"
proof -
  have "flat_lookup s (p, t, n) = None"
    using p e miss by (auto simp add: flat_lookup_simp entry_lookup_def)
  then show new: "(p, t, n) \<notin> set seen"
    using flattener_inv_lookup [OF inv, of "(p, t, n)"] by (auto split: if_splits)
  have nokeys: "map_m s (IndexType p t' n') = None" for t' n'
    using flattener_inv_keys [OF inv, of p t' n'] e
    by (cases "map_m s (IndexType p t' n')") auto
  then show "map_m s (IndexType p t' n') = None" .
  have "flat_lookup s (p, texcoord old, normal old) = Some (position_or_flat old)"
    using p e by (simp add: flat_lookup_simp entry_lookup_def old_def)
  with flattener_inv_lookup [OF inv, of "(p, texcoord old, normal old)"]
  have old: "(p, texcoord old, normal old) \<in> set seen"
    "position_or_flat old = int (index_of seen (p, texcoord old, normal old))"
    by (auto split: if_splits)
  have others: "(p, t', n') \<notin> set seen"
    if "(t', n') \<noteq> (texcoord old, normal old)" for t' n'
  proof -
    have "flat_lookup s (p, t', n') = None"
      using p e that by (auto simp add: flat_lookup_simp entry_lookup_def old_def)
    with flattener_inv_lookup [OF inv, of "(p, t', n')"] show ?thesis
      by (auto split: if_splits)
  qed
  have count: "count_m s = int (length seen)" using inv by (simp add: flattener_inv_def)
  let ?m' = "(map_m s)(IndexType p (texcoord old) (normal old) \<mapsto> position_or_flat old,
                             IndexType p t n \<mapsto> count_m s)"
  let ?s' = "s\<lparr>count_m := count_m s + 1,
          table_m := (table_m s)[nat p :=
             IndexType kIndexNotInTable (texcoord old) (normal old)],
          map_m := ?m'\<rparr>"
  have s': "table_m ?s' = (table_m s)[nat p :=
             IndexType kIndexNotInTable (texcoord old) (normal old)]"
    by simp
  have here: "flat_lookup ?s' (p, t', n') = ?m' (IndexType p t' n')" for t' n'
    using flat_lookup_update [OF p s', of p t' n'] sentinels
    by (simp add: entry_lookup_def)
  have there: "flat_lookup ?s' (p', t', n') = flat_lookup s (p', t', n')"
    if "p' \<noteq> p" for p' t' n'
    using flat_lookup_update [OF p s', of p' t' n'] that
    by (simp add: flat_lookup_simp entry_lookup_def)
  have lookup: "flat_lookup ?s' k =
      (if k \<in> set (seen @ [(p, t, n)]) then Some (int (index_of (seen @ [(p, t, n)]) k))
       else None)" for k
  proof (cases k)
    case (fields p' t' n')
    show ?thesis
    proof (cases "p' = p")
      case True
      from new old others [of t' n'] nokeys [of t' n'] count show ?thesis
        unfolding fields True here by (auto simp add: index_of_snoc)
    next
      case False
      with flattener_inv_lookup [OF inv, of k] show ?thesis
        unfolding fields there [OF False] by (auto simp add: index_of_snoc)
    qed
  qed
  have keys: "0 \<le> p' \<and> nat p' < length (table_m ?s') \<and>
      position_or_flat (table_m ?s' ! nat p') = kIndexNotInTable"
    if "map_m ?s' (IndexType p' t' n') \<noteq> None" for p' t' n'
  proof (cases "p' = p")
    case True
    with p show ?thesis by simp
  next
    case False
    with that have "map_m s (IndexType p' t' n') \<noteq> None" by simp
    from flattener_inv_keys [OF inv this] have k: "0 \<le> p'" "nat p' < length (table_m s)"
      "position_or_flat (table_m s ! nat p') = kIndexNotInTable" by simp_all
    with False p have "nat p' \<noteq> nat p" by auto
    with k show ?thesis by simp
  qed
  show "flattener_inv ?s' (seen @ [(p, t, n)])"
    unfolding flattener_inv_def
  proof (intro conjI allI impI)
    show "distinct (seen @ [(p, t, n)])" using inv new by (simp add: flattener_inv_def)
    show "count_m ?s' = int (length (seen @ [(p, t, n)]))" using count by simp
    show "int (length (table_m ?s')) \<le> INT_MAX" using inv by (simp add: flattener_inv_def)
  qed (use lookup keys in blast)+
qed


lemma flattener_inv_count: "flattener_inv s seen \<Longrightarrow> count_m s = int (length seen)"
  by (simp add: flattener_inv_def)

lemma flattener_inv_table: "flattener_inv s seen \<Longrightarrow> int (length (table_m s)) \<le> INT_MAX"
  by (simp add: flattener_inv_def)

text \<open>One call whose position lies within the table.\<close>

lemma GetFlattenedIndex_in_table:
  assumes inv: "flattener_inv s seen" and p: "0 \<le> p" "nat p < length (table_m s)"
  shows "if (p, t, n) \<in> set seen \<or> int (length seen) < INT_MAX
    then \<exists>s'. GetFlattenedIndex s p t n = Inr (flat_answer seen (p, t, n), s') \<and>
      flattener_inv s' (seen_with seen (p, t, n))
    else GetFlattenedIndex s p t n = Inl Undefined"
proof -
  let ?e = "table_m s ! nat p"
  let ?room = "(p, t, n) \<in> set seen \<or> int (length seen) < INT_MAX"
  have cast: "static_cast_int (length (table_m s)) = int (length (table_m s))"
    using flattener_inv_table [OF inv] by (rule static_cast_int_small)
  have count: "count_m s = int (length seen)" using inv by (rule flattener_inv_count)
  have pre: "\<not> static_cast_int (length (table_m s)) \<le> p" "\<not> p < 0"
    using p by (simp_all add: cast)
  consider (unknown) "position_or_flat ?e = kIndexUnknown"
    | (map_hit) found where "position_or_flat ?e = kIndexNotInTable"
        "map_m s (IndexType p t n) = Some found"
    | (map_miss) "position_or_flat ?e = kIndexNotInTable" "map_m s (IndexType p t n) = None"
    | (cached_hit) "position_or_flat ?e \<noteq> kIndexUnknown"
        "position_or_flat ?e \<noteq> kIndexNotInTable" "texcoord ?e = t" "normal ?e = n"
    | (cached_miss) "position_or_flat ?e \<noteq> kIndexUnknown"
        "position_or_flat ?e \<noteq> kIndexNotInTable" "\<not> (texcoord ?e = t \<and> normal ?e = n)"
    by (cases "map_m s (IndexType p t n)") auto
  then show ?thesis
  proof cases
    case unknown
    note facts = step_unknown [OF inv p unknown, of t n]
    show ?thesis
    proof (cases ?room)
      case True
      with facts(1) have "\<not> INT_MAX \<le> count_m s" by (simp add: count)
      then have "GetFlattenedIndex s p t n = Inr ((count_m s, True),
          s\<lparr>count_m := count_m s + 1,
              table_m := (table_m s)[nat p := IndexType (count_m s) t n]\<rparr>)"
        using pre p unknown by (simp add: GetFlattenedIndex_def Let_def)
      with facts True show ?thesis
        by (simp add: flat_answer_def seen_with_def count)
    next
      case False
      then have "INT_MAX \<le> count_m s" by (simp add: count)
      then have "GetFlattenedIndex s p t n = Inl Undefined"
        using pre p unknown by (simp add: GetFlattenedIndex_def Let_def)
      with False show ?thesis by simp
    qed
  next
    case map_hit
    have "GetFlattenedIndex s p t n = Inr ((found, False), s)"
      using pre p map_hit sentinels
      by (simp add: GetFlattenedIndex_def GetFlattenedIndexFromMap_def Let_def)
    with step_map_hit [OF inv p map_hit] inv show ?thesis
      by (simp add: flat_answer_def seen_with_def)
  next
    case map_miss
    note facts = step_map_miss [OF inv p map_miss]
    show ?thesis
    proof (cases ?room)
      case True
      with facts(1) have "\<not> INT_MAX \<le> count_m s" by (simp add: count)
      then have "GetFlattenedIndex s p t n = Inr ((count_m s, True),
          s\<lparr>count_m := count_m s + 1,
              map_m := (map_m s)(IndexType p t n \<mapsto> count_m s)\<rparr>)"
        using pre p map_miss sentinels
        by (simp add: GetFlattenedIndex_def GetFlattenedIndexFromMap_def Let_def map_insert_def)
      with facts True show ?thesis
        by (simp add: flat_answer_def seen_with_def count)
    next
      case False
      then have "INT_MAX \<le> count_m s" by (simp add: count)
      then have "GetFlattenedIndex s p t n = Inl Undefined"
        using pre p map_miss sentinels
        by (simp add: GetFlattenedIndex_def GetFlattenedIndexFromMap_def Let_def)
      with False show ?thesis by simp
    qed
  next
    case cached_hit
    have "GetFlattenedIndex s p t n = Inr ((position_or_flat ?e, False), s)"
      using pre p cached_hit by (simp add: GetFlattenedIndex_def Let_def)
    with step_cached_hit [OF inv p cached_hit] inv show ?thesis
      by (simp add: flat_answer_def seen_with_def)
  next
    case cached_miss
    note facts = step_cached_miss [OF inv p cached_miss]
    show ?thesis
    proof (cases ?room)
      case True
      with facts(1) have "\<not> INT_MAX \<le> count_m s" by (simp add: count)
      then have "GetFlattenedIndex s p t n = Inr ((count_m s, True),
          s\<lparr>count_m := count_m s + 1,
            table_m := (table_m s)[nat p :=
               IndexType kIndexNotInTable (texcoord ?e) (normal ?e)],
            map_m := (map_m s)(IndexType p (texcoord ?e) (normal ?e) \<mapsto> position_or_flat ?e,
                               IndexType p t n \<mapsto> count_m s)\<rparr>)"
        using pre p cached_miss facts(2)
        by (auto simp add: GetFlattenedIndex_def Let_def map_insert_def)
      with facts(1,3) True show ?thesis
        by (simp add: flat_answer_def seen_with_def count)
    next
      case False
      then have "INT_MAX \<le> count_m s" by (simp add: count)
      then have "GetFlattenedIndex s p t n = Inl Undefined"
        using pre p cached_miss
        by (auto simp add: GetFlattenedIndex_def Let_def)
      with False show ?thesis by simp
    qed
  qed
qed

text \<open>A call beyond the table first grows it.\<close>

lemma GetFlattenedIndex_grow:
  assumes inv: "flattener_inv s seen" and p: "0 \<le> p" "p < INT_MAX"
    and out: "\<not> nat p < length (table_m s)"
  shows "GetFlattenedIndex s p t n =
    GetFlattenedIndex (s\<lparr>table_m := resize (table_m s) (nat (p + 1))\<rparr>) p t n"
proof -
  have cast: "static_cast_int (length (table_m s)) = int (length (table_m s))"
    using flattener_inv_table [OF inv] by (rule static_cast_int_small)
  have len: "length (resize (table_m s) (nat (p + 1))) = nat (p + 1)"
    using out p by (simp add: resize_def)
  have "int (nat (p + 1)) \<le> INT_MAX" using p by simp
  then have cast': "static_cast_int (nat (p + 1)) = p + 1"
    using p by (simp add: static_cast_int_small)
  have grow: "static_cast_int (length (table_m s)) \<le> p" "\<not> INT_MAX \<le> p"
    using out p by (simp_all add: cast)
  show ?thesis
    using grow p
    by (simp add: GetFlattenedIndex_def [of s]
        GetFlattenedIndex_def [of "s\<lparr>table_m := resize (table_m s) (nat (p + 1))\<rparr>"]
        Let_def len cast')
qed

text \<open>Outside the table positions a call has no defined behaviour.\<close>

lemma GetFlattenedIndex_outside:
  assumes inv: "flattener_inv s seen" and p: "p < 0 \<or> INT_MAX \<le> p"
  shows "GetFlattenedIndex s p t n = Inl Undefined"
proof -
  have cast: "static_cast_int (length (table_m s)) = int (length (table_m s))"
    using flattener_inv_table [OF inv] by (rule static_cast_int_small)
  from p show ?thesis
  proof
    assume "p < 0"
    then show ?thesis by (simp add: GetFlattenedIndex_def Let_def cast)
  next
    assume "INT_MAX \<le> p"
    with flattener_inv_table [OF inv] show ?thesis
      by (simp add: GetFlattenedIndex_def Let_def cast)
  qed
qed

text \<open>The whole behaviour of one call on a state that has seen \<open>seen\<close>.\<close>

lemma GetFlattenedIndex_cases:
  assumes inv: "flattener_inv s seen"
  shows "if 0 \<le> p \<and> p < INT_MAX \<and> ((p, t, n) \<in> set seen \<or> int (length seen) < INT_MAX)
    then \<exists>s'. GetFlattenedIndex s p t n = Inr (flat_answer seen (p, t, n), s') \<and>
      flattener_inv s' (seen_with seen (p, t, n))
    else GetFlattenedIndex s p t n = Inl Undefined"
proof (cases "0 \<le> p \<and> p < INT_MAX")
  case False
  then have "p < 0 \<or> INT_MAX \<le> p" by auto
  from GetFlattenedIndex_outside [OF inv this] False show ?thesis by auto
next
  case True
  then have p: "0 \<le> p" "p < INT_MAX" by simp_all
  show ?thesis
  proof (cases "nat p < length (table_m s)")
    case in_table: True
    from GetFlattenedIndex_in_table [OF inv p(1) in_table, of t n] True show ?thesis
      by simp
  next
    case False
    let ?s1 = "s\<lparr>table_m := resize (table_m s) (nat (p + 1))\<rparr>"
    have "length (table_m s) \<le> nat (p + 1)" using False by simp
    moreover have "int (nat (p + 1)) \<le> INT_MAX" using p by simp
    ultimately have inv1: "flattener_inv ?s1 seen"
      using inv by (intro flattener_inv_resize)
    have "nat p < length (table_m ?s1)" using False p by (simp add: resize_def)
    from GetFlattenedIndex_in_table [OF inv1 p(1) this, of t n] True show ?thesis
      by (simp only: GetFlattenedIndex_grow [OF inv p False]) simp
  qed
qed

lemma GetFlattenedIndex_step:
  assumes inv: "flattener_inv s seen" and p: "0 \<le> p" "p < INT_MAX"
    and room: "int (length seen) < INT_MAX"
  shows "\<exists>s'. GetFlattenedIndex s p t n = Inr (flat_answer seen (p, t, n), s') \<and>
    flattener_inv s' (seen_with seen (p, t, n))"
  using GetFlattenedIndex_cases [OF inv, of p t n] p room by simp

text \<open>What a call that returns has returned.\<close>

lemma GetFlattenedIndex_returned:
  assumes inv: "flattener_inv s seen" and "GetFlattenedIndex s p t n = Inr (r, s')"
  shows "r = flat_answer seen (p, t, n) \<and> flattener_inv s' (seen_with seen (p, t, n))"
  using GetFlattenedIndex_cases [OF inv, of p t n] assms(2)
  by (auto split: if_splits)

lemma flattener_inv_init:
  assumes "int num_positions \<le> INT_MAX"
  shows "flattener_inv (IndexFlattener_init num_positions) []"
  using assms
  by (simp add: flattener_inv_def IndexFlattener_init_def flat_lookup_def entry_lookup_default)

text \<open>A sequence of calls answers as the list of first occurrences prescribes.\<close>

lemma GetFlattenedIndex_seq_answers:
  assumes "flattener_inv s seen" "list_all position_ok calls"
    and "int (length seen) + int (length calls) \<le> INT_MAX"
  shows "\<exists>s'. GetFlattenedIndex_seq s calls = Inr (flat_answers seen calls, s') \<and>
    flattener_inv s' (seen_after seen calls)"
  using assms
proof (induction calls arbitrary: s seen)
  case Nil
  then show ?case by simp
next
  case (Cons k calls)
  obtain p t n where k: "k = (p, t, n)" by (cases k)
  from Cons.prems(2) have p: "0 \<le> p" "p < INT_MAX" by (simp_all add: k position_ok_def)
  from Cons.prems(3) have room: "int (length seen) < INT_MAX" by simp
  from GetFlattenedIndex_step [OF Cons.prems(1) p room, of t n] obtain s1 where
    s1: "GetFlattenedIndex s p t n = Inr (flat_answer seen k, s1)"
      "flattener_inv s1 (seen_with seen k)"
    unfolding k by blast
  have "length (seen_with seen k) \<le> Suc (length seen)" by (simp add: seen_with_def)
  with Cons.prems(3) have "int (length (seen_with seen k)) + int (length calls) \<le> INT_MAX"
    by simp
  from Cons.IH [OF s1(2) _ this] Cons.prems(2) obtain s' where
    "GetFlattenedIndex_seq s1 calls = Inr (flat_answers (seen_with seen k) calls, s')"
    "flattener_inv s' (seen_after (seen_with seen k) calls)"
    by auto
  with s1(1) show ?case by (simp add: k)
qed

text \<open>
  Claim C1. On a fresh flattener, every sequence of calls with table positions returns:
  a repeated triple gets the flat index of its earlier call, with \<open>is_new\<close> false; the
  first call of a triple gets \<open>is_new\<close> true and, as flat index, the number of distinct
  triples before it, so that the indices are handed out in the order of first occurrence;
  the flat indices returned are exactly \<open>0, ..., N - 1\<close> for the \<open>N\<close> distinct triples, and
  \<open>count\<close> is \<open>N\<close>. In particular a position seen with two different (texcoord, normal)
  pairs gets two flat indices, and the first pair gets the first index again afterwards.
\<close>

theorem GetFlattenedIndex_deterministic:
  assumes "flattener_input num_positions calls"
  shows "\<exists>answers s'.
    GetFlattenedIndex_seq (IndexFlattener_init num_positions) calls = Inr (answers, s') \<and>
    length answers = length calls \<and>
    count_m s' = int (card (set calls)) \<and>
    (\<forall>i j. j < i \<and> i < length calls \<and> calls ! j = calls ! i \<longrightarrow>
       answers ! i = (fst (answers ! j), False)) \<and>
    (\<forall>i. i < length calls \<and> calls ! i \<notin> set (take i calls) \<longrightarrow>
       answers ! i = (int (card (set (take i calls))), True)) \<and>
    fst ` set answers = int ` {0..<card (set calls)} \<and>
    (\<forall>p t1 n1 t2 n2. calls = [(p, t1, n1), (p, t2, n2), (p, t1, n1)] \<and> (t1, n1) \<noteq> (t2, n2) \<longrightarrow>
       answers = [(0, True), (1, True), (0, False)])"
proof -
  from assms have inv: "flattener_inv (IndexFlattener_init num_positions) []"
    and ok: "list_all position_ok calls"
    and len: "int (length ([] :: (int \<times> int \<times> int) list)) + int (length calls) \<le> INT_MAX"
    by (simp_all add: flattener_input_def flattener_inv_init)
  from GetFlattenedIndex_seq_answers [OF inv ok len] obtain s' where
    run: "GetFlattenedIndex_seq (IndexFlattener_init num_positions) calls =
      Inr (flat_answers [] calls, s')"
    and inv': "flattener_inv s' (seen_after [] calls)"
    by blast
  let ?answers = "flat_answers [] calls"
  have nth: "?answers ! i =
      (int (index_of (seen_after [] calls) (calls ! i)), calls ! i \<notin> set (take i calls))"
    if "i < length calls" for i
    using flat_answers_nth [OF that, of "[]"] by simp
  have count: "count_m s' = int (card (set calls))"
    using flattener_inv_count [OF inv'] by (simp add: length_seen_after)
  have repeated: "?answers ! i = (fst (?answers ! j), False)"
    if "j < i \<and> i < length calls \<and> calls ! j = calls ! i" for i j
  proof -
    from that have "j < length (take i calls)" "take i calls ! j = calls ! i" by simp_all
    then have "calls ! i \<in> set (take i calls)" by (metis nth_mem)
    with that show ?thesis by (simp add: nth)
  qed
  have first: "?answers ! i = (int (card (set (take i calls))), True)"
    if "i < length calls \<and> calls ! i \<notin> set (take i calls)" for i
    using that by (simp add: nth first_occurrence_index)
  have ambiguous: "?answers = [(0, True), (1, True), (0, False)]"
    if "calls = [(p, t1, n1), (p, t2, n2), (p, t1, n1)] \<and> (t1, n1) \<noteq> (t2, n2)"
    for p t1 n1 t2 n2
  proof -
    from that have "flat_answers [] [(p, t1, n1), (p, t2, n2), (p, t1, n1)] =
        [(0, True), (1, True), (0, False)]"
      by (auto simp add: flat_answer_def seen_with_def)
    with that show ?thesis by simp
  qed
  show ?thesis
  proof (intro exI conjI allI impI)
    show "GetFlattenedIndex_seq (IndexFlattener_init num_positions) calls =
        Inr (?answers, s')" by (rule run)
    show "length ?answers = length calls" by (rule length_flat_answers)
    show "count_m s' = int (card (set calls))" by (rule count)
    show "fst ` set ?answers = int ` {0..<card (set calls)}" by (rule flat_answers_image)
  qed (use repeated first ambiguous in blast)+
qed

theorem GetFlattenedIndex_deterministic_witness:
  "flattener_input 0 [(7, 0, 0), (7, 1, 0), (7, 0, 0), (2, - 1, - 1)] \<and>
   map_sum id fst
     (GetFlattenedIndex_seq (IndexFlattener_init 0)
        [(7, 0, 0), (7, 1, 0), (7, 0, 0), (2, - 1, - 1)]) =
     Inr [(0, True), (1, True), (0, False), (2, True)] \<and>
   map_sum id (\<lambda>r. position_or_flat (table_m (snd r) ! 7))
     (GetFlattenedIndex_seq (IndexFlattener_init 0)
        [(7, 0, 0), (7, 1, 0), (7, 0, 0), (2, - 1, - 1)]) =
     Inr kIndexNotInTable"
  using GetFlattenedIndex_deterministic [of 0 "[(7, 0, 0), (7, 1, 0), (7, 0, 0), (2, - 1, - 1)]"]
  by (simp add: flattener_input_def position_ok_def INT_MAX_def IndexFlattener_init_def
      GetFlattenedIndex_def GetFlattenedIndexFromMap_def static_cast_int_def resize_def
      IndexType_default_def kIndexUnknown_def kIndexNotInTable_def map_insert_def Let_def)

section \<open>Properties of the draw batch\<close>

text \<open>A copy loop that returns has appended one value for each of its steps.\<close>

lemma push_back_from_appends:
  "push_back_from src width index steps a = Inr a' \<Longrightarrow>
   \<exists>added. a' = a @ added \<and> length added = length steps"
proof (induction steps arbitrary: a)
  case Nil
  then show ?case by simp
next
  case (Cons i steps)
  from Cons.prems obtain x where
    "push_back_from src width index steps (a @ [x]) = Inr a'"
    by (auto split: sum.splits)
  from Cons.IH [OF this] show ?case by auto
qed

lemma record_at_old:
  assumes "v < n" "length a = 8 * n"
  shows "record_at (a @ added) v = record_at a v"
proof -
  from assms have "8 * v + 8 \<le> length a" by simp
  then show ?thesis by (simp add: record_at_def)
qed

lemma record_at_new:
  assumes "length a = 8 * n" "length added = 8"
  shows "record_at (a @ added) n = added"
  using assms by (simp add: record_at_def)

text \<open>The record appended for a new vertex.\<close>

lemma new_record:
  assumes "push_back_from positions positionDim p [0..<positionDim] a = Inr a1"
    and "(if t = - 1 then Inr (a1 @ replicate texcoordDim (Finite 0))
          else push_back_from texcoords texcoordDim t [0..<texcoordDim] a1) = Inr a2"
    and "(if n = - 1 then Inr (a2 @ replicate normalDim (Finite 0))
          else push_back_from normals normalDim n [0..<normalDim] a2) = Inr a3"
  shows "\<exists>added. a3 = a @ added \<and> zero_filled (p, t, n) added"
proof -
  from push_back_from_appends [OF assms(1)] obtain m1 where
    m1: "a1 = a @ m1" "length m1 = 3" by (auto simp: positionDim_def)
  have "\<exists>m2. a2 = a1 @ m2 \<and> length m2 = 2 \<and> (t = - 1 \<longrightarrow> m2 = [Finite 0, Finite 0])"
  proof (cases "t = - 1")
    case True
    with assms(2) show ?thesis by (auto simp: texcoordDim_def numeral_2_eq_2)
  next
    case False
    with assms(2) push_back_from_appends [of texcoords texcoordDim t "[0..<texcoordDim]" a1 a2]
    show ?thesis by (auto simp: texcoordDim_def)
  qed
  then obtain m2 where m2: "a2 = a1 @ m2" "length m2 = 2"
    "t = - 1 \<longrightarrow> m2 = [Finite 0, Finite 0]" by blast
  have "\<exists>m3. a3 = a2 @ m3 \<and> length m3 = 3 \<and>
      (n = - 1 \<longrightarrow> m3 = [Finite 0, Finite 0, Finite 0])"
  proof (cases "n = - 1")
    case True
    with assms(3) show ?thesis by (auto simp: normalDim_def numeral_3_eq_3)
  next
    case False
    with assms(3) push_back_from_appends [of normals normalDim n "[0..<normalDim]" a2 a3]
    show ?thesis by (auto simp: normalDim_def)
  qed
  then obtain m3 where m3: "a3 = a2 @ m3" "length m3 = 3"
    "n = - 1 \<longrightarrow> m3 = [Finite 0, Finite 0, Finite 0]" by blast
  have "a3 = a @ (m1 @ m2 @ m3)" using m1 m2 m3 by simp
  moreover have "zero_filled (p, t, n) (m1 @ m2 @ m3)"
    using m1(2) m2(2,3) m3(2,3) by (auto simp add: zero_filled_def nth_append)
  ultimately show ?thesis by blast
qed

text \<open>What one iteration that returns has done.\<close>

lemma AddTriangle_vertex_returned:
  assumes "AddTriangle_vertex positions texcoords normals triangle i b = Inr b'"
  obtains flattened flattener where
    "GetFlattenedIndex (flattener_m b) (triangle ! i - 1) (triangle ! (i + 1) - 1)
       (triangle ! (i + 2) - 1) = Inr (flattened, flattener)"
    "flattener_m b' = flattener"
    "mesh_indices (draw_mesh_m b') = mesh_indices (draw_mesh_m b) @ [fst flattened]"
    "if snd flattened
     then \<exists>added. mesh_attribs (draw_mesh_m b') = mesh_attribs (draw_mesh_m b) @ added \<and>
            zero_filled (vertex_triple triangle i) added
     else mesh_attribs (draw_mesh_m b') = mesh_attribs (draw_mesh_m b)"
proof -
  let ?p = "triangle ! i - 1" and ?t = "triangle ! (i + 1) - 1" and ?n = "triangle ! (i + 2) - 1"
  from assms obtain flattened flattener where
    get: "GetFlattenedIndex (flattener_m b) ?p ?t ?n = Inr (flattened, flattener)"
    by (auto simp add: AddTriangle_vertex_def Let_def split: if_splits sum.splits)
  let ?b1 = "b\<lparr>flattener_m := flattener,
      draw_mesh_m := (draw_mesh_m b)
         \<lparr>mesh_indices := mesh_indices (draw_mesh_m b) @ [fst flattened]\<rparr>\<rparr>"
  show thesis
  proof (cases "snd flattened")
    case False
    with assms get have "b' = ?b1"
      by (auto simp add: AddTriangle_vertex_def Let_def split: if_splits)
    with get False show ?thesis by (intro that [of flattened flattener]) simp_all
  next
    case True
    with assms get obtain a1 a2 a3 where
      a: "push_back_from positions positionDim ?p [0..<positionDim]
            (mesh_attribs (draw_mesh_m b)) = Inr a1"
        "(if ?t = - 1 then Inr (a1 @ replicate texcoordDim (Finite 0))
          else push_back_from texcoords texcoordDim ?t [0..<texcoordDim] a1) = Inr a2"
        "(if ?n = - 1 then Inr (a2 @ replicate normalDim (Finite 0))
          else push_back_from normals normalDim ?n [0..<normalDim] a2) = Inr a3"
      and b': "b' = ?b1\<lparr>draw_mesh_m := (draw_mesh_m ?b1)\<lparr>mesh_attribs := a3\<rparr>\<rparr>"
      by (auto simp add: AddTriangle_vertex_def Let_def split: if_splits sum.splits)
    from new_record [OF a] obtain added where
      "a3 = mesh_attribs (draw_mesh_m b) @ added" "zero_filled (?p, ?t, ?n) added" by blast
    with get True b' show ?thesis
      by (intro that [of flattened flattener]) (auto simp add: vertex_triple_def)
  qed
qed

text \<open>One iteration keeps the batch consistent with the triples seen.\<close>

lemma index_in_buffer_grows:
  assumes "list_all (index_in_buffer m) xs"
    and "length (mesh_attribs m) \<le> length (mesh_attribs m')"
  shows "list_all (index_in_buffer m') xs"
proof -
  have "length (mesh_attribs m) div 8 \<le> length (mesh_attribs m') div 8"
    using assms(2) by (rule div_le_mono)
  with assms(1) show ?thesis
    by (auto simp add: list_all_iff index_in_buffer_def)
qed

lemma AddTriangle_vertex_inv:
  assumes inv: "batch_inv b seen vertices"
    and run: "AddTriangle_vertex positions texcoords normals triangle i b = Inr b'"
  shows "batch_inv b' (seen_with seen (vertex_triple triangle i)) (Suc vertices)"
proof -
  let ?k = "vertex_triple triangle i"
  let ?m = "draw_mesh_m b" and ?m' = "draw_mesh_m b'"
  from inv have finv: "flattener_inv (flattener_m b) seen"
    and len: "length (mesh_attribs ?m) = 8 * length seen"
    and nidx: "length (mesh_indices ?m) = vertices"
    and idx: "list_all (index_in_buffer ?m) (mesh_indices ?m)"
    and zero: "\<And>v. v < length seen \<Longrightarrow> zero_filled (seen ! v) (record_at (mesh_attribs ?m) v)"
    by (simp_all add: batch_inv_def)
  from run obtain flattened flattener where
    get: "GetFlattenedIndex (flattener_m b) (triangle ! i - 1) (triangle ! (i + 1) - 1)
       (triangle ! (i + 2) - 1) = Inr (flattened, flattener)"
    and fl: "flattener_m b' = flattener"
    and indices: "mesh_indices ?m' = mesh_indices ?m @ [fst flattened]"
    and attribs: "if snd flattened
     then \<exists>added. mesh_attribs ?m' = mesh_attribs ?m @ added \<and> zero_filled ?k added
     else mesh_attribs ?m' = mesh_attribs ?m"
    by (rule AddTriangle_vertex_returned)
  from GetFlattenedIndex_returned [OF finv get]
  have answer: "flattened = flat_answer seen ?k"
    and finv': "flattener_inv (flattener_m b') (seen_with seen ?k)"
    by (simp_all add: vertex_triple_def fl)
  show ?thesis
  proof (cases "?k \<in> set seen")
    case True
    then have flat: "flattened = (int (index_of seen ?k), False)"
      and seen: "seen_with seen ?k = seen"
      by (simp_all add: answer flat_answer_def seen_with_def)
    from attribs flat have same: "mesh_attribs ?m' = mesh_attribs ?m" by simp
    have "index_in_buffer ?m' (int (index_of seen ?k))"
      using index_of_less [OF True] by (simp add: index_in_buffer_def same len)
    moreover have "list_all (index_in_buffer ?m') (mesh_indices ?m)"
      using idx by (rule index_in_buffer_grows) (simp add: same)
    ultimately show ?thesis
      using finv' zero unfolding batch_inv_def seen
      by (simp add: same len indices nidx flat)
  next
    case False
    then have flat: "flattened = (int (length seen), True)"
      and seen: "seen_with seen ?k = seen @ [?k]"
      by (simp_all add: answer flat_answer_def seen_with_def)
    from attribs flat obtain added where
      added: "mesh_attribs ?m' = mesh_attribs ?m @ added" "zero_filled ?k added"
      by auto
    then have eight: "length added = 8" by (simp add: zero_filled_def)
    have "index_in_buffer ?m' (int (length seen))"
      by (simp add: index_in_buffer_def added(1) len eight)
    moreover have "list_all (index_in_buffer ?m') (mesh_indices ?m)"
      using idx by (rule index_in_buffer_grows) (simp add: added(1))
    moreover have "zero_filled ((seen @ [?k]) ! v) (record_at (mesh_attribs ?m') v)"
      if "v < length (seen @ [?k])" for v
    proof (cases "v < length seen")
      case True
      with zero [OF True] show ?thesis
        by (simp add: added(1) record_at_old [OF True len] nth_append)
    next
      case False
      with that have "v = length seen" by simp
      with added(2) show ?thesis
        by (simp add: added(1) record_at_new [OF len eight])
    qed
    ultimately show ?thesis
      using finv' unfolding batch_inv_def seen
      by (simp add: added(1) len eight indices nidx flat)
  qed
qed

text \<open>The loop, a call and a sequence of calls.\<close>

lemma AddTriangle_loop_inv:
  assumes "batch_inv b seen vertices"
    and "AddTriangle_loop positions texcoords normals triangle steps b = Inr b'"
  shows "batch_inv b' (seen_after seen (map (vertex_triple triangle) steps))
    (vertices + length steps)"
  using assms
proof (induction steps arbitrary: b seen vertices)
  case Nil
  then show ?case by simp
next
  case (Cons i steps)
  from Cons.prems(2) obtain b1 where
    b1: "AddTriangle_vertex positions texcoords normals triangle i b = Inr b1"
      "AddTriangle_loop positions texcoords normals triangle steps b1 = Inr b'"
    by (auto split: sum.splits)
  from AddTriangle_vertex_inv [OF Cons.prems(1) b1(1)]
  have "batch_inv b1 (seen_with seen (vertex_triple triangle i)) (Suc vertices)" .
  from Cons.IH [OF this b1(2)] show ?case by simp
qed

lemma AddTriangle_inv:
  assumes "batch_inv b seen vertices"
    and "AddTriangle positions texcoords normals triangle b = Inr b'"
  shows "batch_inv b'
    (seen_after seen (triangle_triples (positions, texcoords, normals, triangle)))
    (vertices + 3)"
proof -
  from assms(2) have "AddTriangle_loop positions texcoords normals triangle [0, 3, 6] b = Inr b'"
    by (simp add: AddTriangle_def split: if_splits)
  from AddTriangle_loop_inv [OF assms(1) this]
  have "batch_inv b' (seen_after seen (map (vertex_triple triangle) [0, 3, 6]))
      (vertices + length [0 :: nat, 3, 6])" .
  moreover have "vertices + length [0 :: nat, 3, 6] = vertices + 3" by simp
  moreover have "map (vertex_triple triangle) [0, 3, 6] =
      triangle_triples (positions, texcoords, normals, triangle)"
    by (simp add: triangle_triples_def)
  ultimately show ?thesis by (simp only:)
qed

lemma AddTriangle_seq_inv:
  assumes "batch_inv b seen vertices" and "AddTriangle_seq b calls = Inr b'"
  shows "batch_inv b' (seen_after seen (all_triples calls)) (vertices + 3 * length calls)"
  using assms
proof (induction calls arbitrary: b seen vertices)
  case Nil
  then show ?case by (simp add: all_triples_def)
next
  case (Cons call calls)
  obtain positions texcoords normals triangle where
    call: "call = (positions, texcoords, normals, triangle)" by (cases call)
  from Cons.prems(2) obtain b1 where
    b1: "AddTriangle positions texcoords normals triangle b = Inr b1"
      "AddTriangle_seq b1 calls = Inr b'"
    by (auto simp add: call split: sum.splits)
  from AddTriangle_inv [OF Cons.prems(1) b1(1)]
  have "batch_inv b1 (seen_after seen (triangle_triples call)) (vertices + 3)"
    by (simp add: call)
  from Cons.IH [OF this b1(2)]
  have "batch_inv b' (seen_after (seen_after seen (triangle_triples call)) (all_triples calls))
      (vertices + 3 + 3 * length calls)" .
  moreover have "vertices + 3 + 3 * length calls = vertices + 3 * length (call # calls)"
    by simp
  moreover have "seen_after (seen_after seen (triangle_triples call)) (all_triples calls) =
      seen_after seen (all_triples (call # calls))"
    by (simp add: all_triples_def seen_after_append)
  ultimately show ?case by (simp only:)
qed

lemma batch_inv_init: "batch_inv DrawBatch_init [] 0"
proof -
  have "int 0 \<le> INT_MAX" by (simp add: INT_MAX_def)
  then have "flattener_inv (IndexFlattener_init 0) []" by (rule flattener_inv_init)
  then show ?thesis by (simp add: batch_inv_def DrawBatch_init_def)
qed

text \<open>
  Claim C8. After any sequence of \<open>AddTriangle\<close> calls on a fresh batch, the attribute
  buffer holds 8 values for each distinct triple the flattener has seen (its \<open>count\<close>), the
  index list holds 3 indices for each triangle added, and every index is below the number
  of records in the attribute buffer. The record of a triple whose texcoord index is -1
  has zeros for its two texcoord values, and the record of a triple whose normal index is
  -1 has zeros for its three normal values; the record of the \<open>v\<close>-th distinct triple, in
  the order of first occurrence, is record \<open>v\<close>.
\<close>

theorem AddTriangle_postconditions:
  assumes "AddTriangle_seq DrawBatch_init calls = Inr b"
  shows "length (mesh_attribs (draw_mesh_m b)) = 8 * card (set (all_triples calls)) \<and>
    count_m (flattener_m b) = int (card (set (all_triples calls))) \<and>
    length (mesh_indices (draw_mesh_m b)) = 3 * length calls \<and>
    list_all (index_in_buffer (draw_mesh_m b)) (mesh_indices (draw_mesh_m b)) \<and>
    (\<forall>v<card (set (all_triples calls)).
       zero_filled (seen_after [] (all_triples calls) ! v)
         (record_at (mesh_attribs (draw_mesh_m b)) v))"
proof -
  let ?seen = "seen_after [] (all_triples calls)"
  from AddTriangle_seq_inv [OF batch_inv_init assms]
  have inv: "batch_inv b ?seen (3 * length calls)" by simp
  have n: "length ?seen = card (set (all_triples calls))"
    by (simp add: length_seen_after)
  from inv have "flattener_inv (flattener_m b) ?seen" by (simp add: batch_inv_def)
  then have "count_m (flattener_m b) = int (length ?seen)" by (rule flattener_inv_count)
  with inv show ?thesis unfolding batch_inv_def n by simp
qed

lemma replicate_2: "replicate 2 x = [x, x]"
  by (simp add: numeral_2_eq_2)

lemma replicate_3: "replicate 3 x = [x, x, x]"
  by (simp add: numeral_3_eq_3)

lemmas batch_eval = DrawBatch_init_def example_calls_def example_positions_def example_texcoords_def
  example_normals_def AddTriangle_def AddTriangle_vertex_def INT_MIN_def vector_at_def
  at_index_def size_t_of_int_def positionDim_def texcoordDim_def normalDim_def upt_rec
  INT_MAX_def IndexFlattener_init_def
      GetFlattenedIndex_def GetFlattenedIndexFromMap_def static_cast_int_def resize_def
      IndexType_default_def kIndexUnknown_def kIndexNotInTable_def map_insert_def Let_def
   replicate_2 replicate_3

theorem AddTriangle_postconditions_witness:
  "AddTriangle_seq DrawBatch_init example_calls = Inr example_batch \<and>
   all_triples example_calls =
     [(0, 0, 0), (1, - 1, 0), (2, 0, - 1), (0, 0, 0), (2, 0, - 1), (1, 0, 0)] \<and>
   mesh_indices (draw_mesh_m example_batch) = [0, 1, 2, 0, 2, 3] \<and>
   length (mesh_attribs (draw_mesh_m example_batch)) = 8 * 4 \<and>
   count_m (flattener_m example_batch) = 4 \<and>
   record_at (mesh_attribs (draw_mesh_m example_batch)) 1 =
     [Finite 1, Finite 0, Finite 0, Finite 0, Finite 0, Finite 0, Finite 0, Finite 1]"
proof -
  have run: "map_sum id (\<lambda>b. (mesh_indices (draw_mesh_m b), mesh_attribs (draw_mesh_m b)))
      (AddTriangle_seq DrawBatch_init example_calls) =
    Inr ([0, 1, 2, 0, 2, 3],
         [Finite 0, Finite 0, Finite 0, Finite (1 / 2), Finite (1 / 4), Finite 0, Finite 0, Finite 1,
          Finite 1, Finite 0, Finite 0, Finite 0, Finite 0, Finite 0, Finite 0, Finite 1,
          Finite 0, Finite 1, Finite 0, Finite (1 / 2), Finite (1 / 4), Finite 0, Finite 0, Finite 0,
          Finite 1, Finite 0, Finite 0, Finite (1 / 2), Finite (1 / 4), Finite 0, Finite 0, Finite 1])"
    by (simp add: batch_eval)
  then have returned: "AddTriangle_seq DrawBatch_init example_calls = Inr example_batch"
    by (cases "AddTriangle_seq DrawBatch_init example_calls") (simp_all add: example_batch_def)
  with run have mesh: "mesh_indices (draw_mesh_m example_batch) = [0, 1, 2, 0, 2, 3]"
    "mesh_attribs (draw_mesh_m example_batch) =
         [Finite 0, Finite 0, Finite 0, Finite (1 / 2), Finite (1 / 4), Finite 0, Finite 0, Finite 1,
          Finite 1, Finite 0, Finite 0, Finite 0, Finite 0, Finite 0, Finite 0, Finite 1,
          Finite 0, Finite 1, Finite 0, Finite (1 / 2), Finite (1 / 4), Finite 0, Finite 0, Finite 0,
          Finite 1, Finite 0, Finite 0, Finite (1 / 2), Finite (1 / 4), Finite 0, Finite 0, Finite 1]"
    by simp_all
  have triples: "all_triples example_calls =
     [(0, 0, 0), (1, - 1, 0), (2, 0, - 1), (0, 0, 0), (2, 0, - 1), (1, 0, 0)]"
    by (simp add: all_triples_def triangle_triples_def vertex_triple_def example_calls_def)
  have "card (set (all_triples example_calls)) = length (remdups (all_triples example_calls))"
    by (rule length_remdups_card_conv [symmetric])
  also have "\<dots> = 4" by (simp add: triples)
  finally have card: "card (set (all_triples example_calls)) = 4" .
  from AddTriangle_postconditions [OF returned] returned triples mesh card show ?thesis
    by (simp add: record_at_def)
qed

end
